theory Spec2Isabelle
  imports Complex_Main
begin

section \<open>The memoizing decorators of \<^verbatim>\<open>cachetools/func.py\<close>\<close>

text \<open>
  The module wraps a function \<^verbatim>\<open>func\<close> with a cache, a condition variable
  \<^verbatim>\<open>cond\<close>, a set \<^verbatim>\<open>pending\<close> of keys being computed and two counters. The
  closure variables of \<^verbatim>\<open>decorator\<close> become the fields of a record, every method
  takes that record and returns it updated, and every exception is a value.

  The cache classes, the key functions and \<^verbatim>\<open>_CacheInfo\<close> are imported from the
  package (\<^verbatim>\<open>from . import ...\<close>) and are parameters of the model.
\<close>

subsection \<open>Values of the module\<close>

text \<open>A size: a Python integer, or \<^verbatim>\<open>math.inf\<close> (line 22).\<close>

datatype number = PyInt int | PyInf

text \<open>
  The exceptions a call of \<^verbatim>\<open>wrapper\<close> can end with: whatever \<^verbatim>\<open>func\<close> raised, or
  the \<^verbatim>\<open>KeyError\<close> of \<^verbatim>\<open>pending.remove(k)\<close> (line 60) on a key that is not in the set.
\<close>

datatype 'e exn = KeyError | Raised 'e

text \<open>
  The object bound to \<^verbatim>\<open>cache\<close>: the dict \<^verbatim>\<open>{}\<close> of the \<^verbatim>\<open>maxsize is None\<close>
  branches, an instance of one of the imported classes, or an instance of the
  subclass \<^verbatim>\<open>_UnboundTTLCache\<close> (lines 20-27), whose state is that of its base
  class \<^verbatim>\<open>TTLCache\<close>.
\<close>

datatype ('k, 'v, 'c) cache_obj =
    Dict "'k \<rightharpoonup> 'v"
  | CacheObj 'c
  | UnboundTTLCache 'c

text \<open>
  The methods of the imported cache classes that the module calls, on a state \<open>'c\<close>:
  \<^verbatim>\<open>cache[k]\<close> gives the value or raises \<^verbatim>\<open>KeyError\<close> (\<open>None\<close>) and may change the
  cache (recency, expiry); \<^verbatim>\<open>cache[k] = v\<close> stores or raises \<^verbatim>\<open>ValueError\<close>
  (\<open>False\<close>); \<^verbatim>\<open>clear()\<close>; the properties \<^verbatim>\<open>maxsize\<close> and \<^verbatim>\<open>currsize\<close>.
\<close>

record ('k, 'v, 'c) cache_methods =
  getitem :: "'c \<Rightarrow> 'k \<Rightarrow> 'v option \<times> 'c"
  setitem :: "'c \<Rightarrow> 'k \<Rightarrow> 'v \<Rightarrow> bool \<times> 'c"
  clear :: "'c \<Rightarrow> 'c"
  get_maxsize :: "'c \<Rightarrow> number"
  currsize :: "'c \<Rightarrow> int"

text \<open>The two key functions of the imported module \<^verbatim>\<open>keys\<close> (line 17).\<close>

record ('a, 'k) keys =
  hashkey :: "'a \<Rightarrow> 'k"
  typedkey :: "'a \<Rightarrow> 'k"

text \<open>
  Modelled from the spec: the named tuple \<^verbatim>\<open>_CacheInfo\<close> (line 16) is not among the
  sources; the spec gives its fields as \<open>{hits, misses, maxsize, currsize}\<close>, in the
  order lines 73 and 79 pass them.
\<close>

datatype CacheInfo =
  CacheInfo (ci_hits: int) (ci_misses: int) (ci_maxsize: "number option") (ci_currsize: int)

subsection \<open>The operations on the cache object\<close>

text \<open>
  \<^verbatim>\<open>_UnboundTTLCache.__init__\<close> (lines 21-22). The constructor of the imported class
  \<^verbatim>\<open>TTLCache\<close> is a parameter, as are the constructors of the other classes below.
\<close>

definition UnboundTTLCache_init ::
  "(number \<Rightarrow> 'tl \<Rightarrow> 'tm \<Rightarrow> 'c) \<Rightarrow> 'tl \<Rightarrow> 'tm \<Rightarrow> ('k, 'v, 'c) cache_obj" where
  "UnboundTTLCache_init TTLCache ttl timer = UnboundTTLCache (TTLCache PyInf ttl timer)"

text \<open>\<^verbatim>\<open>cache[k]\<close> (line 43).\<close>

fun cache_getitem ::
  "('k, 'v, 'c) cache_methods \<Rightarrow> ('k, 'v, 'c) cache_obj \<Rightarrow> 'k \<Rightarrow> 'v option \<times> ('k, 'v, 'c) cache_obj" where
  "cache_getitem M (Dict d) k = (d k, Dict d)"
| "cache_getitem M (CacheObj c) k = (case getitem M c k of (r, c') \<Rightarrow> (r, CacheObj c'))"
| "cache_getitem M (UnboundTTLCache c) k =
     (case getitem M c k of (r, c') \<Rightarrow> (r, UnboundTTLCache c'))"

text \<open>\<^verbatim>\<open>cache[k] = v\<close> (line 54); \<open>False\<close> when it raises \<^verbatim>\<open>ValueError\<close>.\<close>

fun cache_setitem ::
  "('k, 'v, 'c) cache_methods \<Rightarrow> ('k, 'v, 'c) cache_obj \<Rightarrow> 'k \<Rightarrow> 'v \<Rightarrow> bool \<times> ('k, 'v, 'c) cache_obj" where
  "cache_setitem M (Dict d) k v = (True, Dict (d(k \<mapsto> v)))"
| "cache_setitem M (CacheObj c) k v = (case setitem M c k v of (ok, c') \<Rightarrow> (ok, CacheObj c'))"
| "cache_setitem M (UnboundTTLCache c) k v =
     (case setitem M c k v of (ok, c') \<Rightarrow> (ok, UnboundTTLCache c'))"

text \<open>\<^verbatim>\<open>cache.clear()\<close> (line 66).\<close>

fun cache_clear_obj ::
  "('k, 'v, 'c) cache_methods \<Rightarrow> ('k, 'v, 'c) cache_obj \<Rightarrow> ('k, 'v, 'c) cache_obj" where
  "cache_clear_obj M (Dict d) = Dict Map.empty"
| "cache_clear_obj M (CacheObj c) = CacheObj (clear M c)"
| "cache_clear_obj M (UnboundTTLCache c) = UnboundTTLCache (clear M c)"

text \<open>
  \<^verbatim>\<open>cache.maxsize\<close> (line 79): the property of the class, overridden by
  \<^verbatim>\<open>_UnboundTTLCache\<close> to return \<^verbatim>\<open>None\<close> (lines 24-26). A dict has no such
  attribute; line 69 keeps it away from line 79.
\<close>

fun cache_maxsize :: "('k, 'v, 'c) cache_methods \<Rightarrow> ('k, 'v, 'c) cache_obj \<Rightarrow> number option" where
  "cache_maxsize M (Dict d) = None"
| "cache_maxsize M (CacheObj c) = Some (get_maxsize M c)"
| "cache_maxsize M (UnboundTTLCache c) = None"

text \<open>\<^verbatim>\<open>len(cache)\<close> of the dict (line 73) and \<^verbatim>\<open>cache.currsize\<close> (line 79).\<close>

fun cache_currsize :: "('k, 'v, 'c) cache_methods \<Rightarrow> ('k, 'v, 'c) cache_obj \<Rightarrow> int" where
  "cache_currsize M (Dict d) = int (card (dom d))"
| "cache_currsize M (CacheObj c) = currsize M c"
| "cache_currsize M (UnboundTTLCache c) = currsize M c"

subsection \<open>The memoizing wrapper\<close>

text \<open>
  The variables \<^verbatim>\<open>wrapper\<close> and its methods close over: the arguments of
  \<^verbatim>\<open>_cache\<close> and \<^verbatim>\<open>decorator\<close>, \<^verbatim>\<open>key\<close> (line 30), and the state of lines 33-35.
  The condition variable has no field: what it does is the atomicity of the blocks
  under \<^verbatim>\<open>with cond\<close> and the blocking of \<^verbatim>\<open>wait_for\<close>.
\<close>

record ('a, 'k, 'v, 'e, 'c) memo =
  func :: "'a \<Rightarrow> 'e + 'v"
  key :: "'a \<Rightarrow> 'k"
  maxsize :: "number option"
  typed :: bool
  cache :: "('k, 'v, 'c) cache_obj"
  pending :: "'k set"
  hits :: int
  misses :: int

text \<open>
  Lines 42-49, run under the lock once \<^verbatim>\<open>wait_for\<close> has returned: a hit counts and
  returns the cached value, a \<^verbatim>\<open>KeyError\<close> counts a miss and marks the key pending.
\<close>

definition enter ::
  "('k, 'v, 'c) cache_methods \<Rightarrow> 'k \<Rightarrow> ('a, 'k, 'v, 'e, 'c) memo
    \<Rightarrow> 'v option \<times> ('a, 'k, 'v, 'e, 'c) memo" where
  "enter M k w =
     (case cache_getitem M (cache w) k of
        (Some result, c) \<Rightarrow> (Some result, w\<lparr>cache := c, hits := hits w + 1\<rparr>)
      | (None, c) \<Rightarrow>
          (None, w\<lparr>cache := c, misses := misses w + 1, pending := insert k (pending w)\<rparr>))"

text \<open>Lines 52-56: the store under the lock; a \<^verbatim>\<open>ValueError\<close> is passed over.\<close>

definition store ::
  "('k, 'v, 'c) cache_methods \<Rightarrow> 'k \<Rightarrow> 'v \<Rightarrow> ('a, 'k, 'v, 'e, 'c) memo
    \<Rightarrow> ('a, 'k, 'v, 'e, 'c) memo" where
  "store M k v w = (case cache_setitem M (cache w) k v of (ok, c) \<Rightarrow> w\<lparr>cache := c\<rparr>)"

text \<open>
  Lines 58-61 without the notification: \<^verbatim>\<open>pending.remove(k)\<close> raises \<^verbatim>\<open>KeyError\<close>
  when the key is not in the set.
\<close>

definition finish ::
  "'k \<Rightarrow> ('a, 'k, 'v, 'e, 'c) memo \<Rightarrow> 'e exn + ('a, 'k, 'v, 'e, 'c) memo" where
  "finish k w = (if k \<in> pending w then Inr (w\<lparr>pending := pending w - {k}\<rparr>) else Inl KeyError)"

text \<open>
  One call of \<^verbatim>\<open>wrapper\<close> (lines 37-61) with no other thread in the wrapper. The
  result is \<open>None\<close> when the call never returns: nobody would remove the key that
  \<^verbatim>\<open>wait_for\<close> waits for. Otherwise it is the value returned (\<open>Inr\<close>) or the
  exception raised (\<open>Inl\<close>), with the wrapper's state after the call.
\<close>

definition wrapper ::
  "('k, 'v, 'c) cache_methods \<Rightarrow> ('a, 'k, 'v, 'e, 'c) memo \<Rightarrow> 'a
    \<Rightarrow> (('e exn + 'v) \<times> ('a, 'k, 'v, 'e, 'c) memo) option" where
  "wrapper M w args =
     (let k = key w args in
      if k \<in> pending w then None
      else
        (case enter M k w of
           (Some result, w1) \<Rightarrow> Some (Inr result, w1)
         | (None, w1) \<Rightarrow>
             (case (case func w args of
                      Inr v \<Rightarrow> (Inr v, store M k v w1)
                    | Inl e \<Rightarrow> (Inl (Raised e), w1)) of
                (r, w2) \<Rightarrow>
                  (case finish k w2 of
                     Inr w3 \<Rightarrow> Some (r, w3)
                   | Inl e \<Rightarrow> Some (Inl e, w2)))))"

text \<open>\<^verbatim>\<open>cache_clear\<close> (lines 63-67).\<close>

definition cache_clear ::
  "('k, 'v, 'c) cache_methods \<Rightarrow> ('a, 'k, 'v, 'e, 'c) memo \<Rightarrow> ('a, 'k, 'v, 'e, 'c) memo" where
  "cache_clear M w = w\<lparr>cache := cache_clear_obj M (cache w), hits := 0, misses := 0\<rparr>"

text \<open>
  \<^verbatim>\<open>cache_info\<close> (lines 69-79): which of the two definitions the wrapper gets is
  decided by \<^verbatim>\<open>isinstance(cache, dict)\<close>.
\<close>

definition cache_info :: "('k, 'v, 'c) cache_methods \<Rightarrow> ('a, 'k, 'v, 'e, 'c) memo \<Rightarrow> CacheInfo" where
  "cache_info M w =
     (case cache w of
        Dict d \<Rightarrow> CacheInfo (hits w) (misses w) None (int (card (dom d)))
      | _ \<Rightarrow> CacheInfo (hits w) (misses w) (cache_maxsize M (cache w)) (cache_currsize M (cache w)))"

text \<open>\<^verbatim>\<open>cache_parameters\<close> (line 86): the dict \<^verbatim>\<open>{"maxsize": maxsize, "typed": typed}\<close>.\<close>

record parameters =
  p_maxsize :: "number option"
  p_typed :: bool

definition cache_parameters :: "('a, 'k, 'v, 'e, 'c) memo \<Rightarrow> parameters" where
  "cache_parameters w = \<lparr>p_maxsize = maxsize w, p_typed = typed w\<rparr>"

subsection \<open>The decorator and the six constructors\<close>

text \<open>
  \<^verbatim>\<open>_cache(cache, maxsize, typed)\<close> (lines 29-90) returns the closure \<^verbatim>\<open>decorator\<close>;
  applied to \<^verbatim>\<open>func\<close> it gives the wrapper with the state of lines 33-35. The
  closure is the partial application \<open>py_cache K cache maxsize typed\<close>.
\<close>

definition py_cache ::
  "('a, 'k) keys \<Rightarrow> ('k, 'v, 'c) cache_obj \<Rightarrow> number option \<Rightarrow> bool \<Rightarrow> ('a \<Rightarrow> 'e + 'v)
    \<Rightarrow> ('a, 'k, 'v, 'e, 'c) memo" where
  "py_cache K c m t f =
     \<lparr>func = f, key = (if t then typedkey K else hashkey K), maxsize = m, typed = t,
      cache = c, pending = {}, hits = 0, misses = 0\<rparr>"

text \<open>
  The first argument of a constructor: \<^verbatim>\<open>None\<close>, a callable (the decorator used
  without parentheses), or anything else, taken as the size.
\<close>

datatype 'f maxsize_arg = ArgNone | ArgCallable 'f | ArgNumber number

text \<open>What a constructor returns: the closure \<^verbatim>\<open>decorator\<close>, or the finished wrapper.\<close>

datatype ('f, 'w) decorated = Decorator "'f \<Rightarrow> 'w" | Wrapper 'w

definition fifo_cache ::
  "(number \<Rightarrow> 'c) \<Rightarrow> ('a, 'k) keys \<Rightarrow> ('a \<Rightarrow> 'e + 'v) maxsize_arg \<Rightarrow> bool
    \<Rightarrow> ('a \<Rightarrow> 'e + 'v, ('a, 'k, 'v, 'e, 'c) memo) decorated" where
  "fifo_cache FIFOCache K m t =
     (case m of
        ArgNone \<Rightarrow> Decorator (py_cache K (Dict Map.empty) None t)
      | ArgCallable f \<Rightarrow>
          Wrapper (py_cache K (CacheObj (FIFOCache (PyInt 128))) (Some (PyInt 128)) t f)
      | ArgNumber n \<Rightarrow> Decorator (py_cache K (CacheObj (FIFOCache n)) (Some n) t))"

definition lfu_cache ::
  "(number \<Rightarrow> 'c) \<Rightarrow> ('a, 'k) keys \<Rightarrow> ('a \<Rightarrow> 'e + 'v) maxsize_arg \<Rightarrow> bool
    \<Rightarrow> ('a \<Rightarrow> 'e + 'v, ('a, 'k, 'v, 'e, 'c) memo) decorated" where
  "lfu_cache LFUCache K m t =
     (case m of
        ArgNone \<Rightarrow> Decorator (py_cache K (Dict Map.empty) None t)
      | ArgCallable f \<Rightarrow>
          Wrapper (py_cache K (CacheObj (LFUCache (PyInt 128))) (Some (PyInt 128)) t f)
      | ArgNumber n \<Rightarrow> Decorator (py_cache K (CacheObj (LFUCache n)) (Some n) t))"

definition lru_cache ::
  "(number \<Rightarrow> 'c) \<Rightarrow> ('a, 'k) keys \<Rightarrow> ('a \<Rightarrow> 'e + 'v) maxsize_arg \<Rightarrow> bool
    \<Rightarrow> ('a \<Rightarrow> 'e + 'v, ('a, 'k, 'v, 'e, 'c) memo) decorated" where
  "lru_cache LRUCache K m t =
     (case m of
        ArgNone \<Rightarrow> Decorator (py_cache K (Dict Map.empty) None t)
      | ArgCallable f \<Rightarrow>
          Wrapper (py_cache K (CacheObj (LRUCache (PyInt 128))) (Some (PyInt 128)) t f)
      | ArgNumber n \<Rightarrow> Decorator (py_cache K (CacheObj (LRUCache n)) (Some n) t))"

text \<open>\<^verbatim>\<open>mru_cache\<close> first emits a \<^verbatim>\<open>DeprecationWarning\<close> (lines 140-142), which changes no value.\<close>

definition mru_cache ::
  "(number \<Rightarrow> 'c) \<Rightarrow> ('a, 'k) keys \<Rightarrow> ('a \<Rightarrow> 'e + 'v) maxsize_arg \<Rightarrow> bool
    \<Rightarrow> ('a \<Rightarrow> 'e + 'v, ('a, 'k, 'v, 'e, 'c) memo) decorated" where
  "mru_cache MRUCache K m t =
     (case m of
        ArgNone \<Rightarrow> Decorator (py_cache K (Dict Map.empty) None t)
      | ArgCallable f \<Rightarrow>
          Wrapper (py_cache K (CacheObj (MRUCache (PyInt 128))) (Some (PyInt 128)) t f)
      | ArgNumber n \<Rightarrow> Decorator (py_cache K (CacheObj (MRUCache n)) (Some n) t))"

definition rr_cache ::
  "(number \<Rightarrow> 'ch \<Rightarrow> 'c) \<Rightarrow> ('a, 'k) keys \<Rightarrow> ('a \<Rightarrow> 'e + 'v) maxsize_arg \<Rightarrow> 'ch \<Rightarrow> bool
    \<Rightarrow> ('a \<Rightarrow> 'e + 'v, ('a, 'k, 'v, 'e, 'c) memo) decorated" where
  "rr_cache RRCache K m choice t =
     (case m of
        ArgNone \<Rightarrow> Decorator (py_cache K (Dict Map.empty) None t)
      | ArgCallable f \<Rightarrow>
          Wrapper (py_cache K (CacheObj (RRCache (PyInt 128) choice)) (Some (PyInt 128)) t f)
      | ArgNumber n \<Rightarrow> Decorator (py_cache K (CacheObj (RRCache n choice)) (Some n) t))"

definition ttl_cache ::
  "(number \<Rightarrow> 'tl \<Rightarrow> 'tm \<Rightarrow> 'c) \<Rightarrow> ('a, 'k) keys \<Rightarrow> ('a \<Rightarrow> 'e + 'v) maxsize_arg \<Rightarrow> 'tl \<Rightarrow> 'tm
    \<Rightarrow> bool \<Rightarrow> ('a \<Rightarrow> 'e + 'v, ('a, 'k, 'v, 'e, 'c) memo) decorated" where
  "ttl_cache TTLCache K m ttl timer t =
     (case m of
        ArgNone \<Rightarrow> Decorator (py_cache K (UnboundTTLCache_init TTLCache ttl timer) None t)
      | ArgCallable f \<Rightarrow>
          Wrapper (py_cache K (CacheObj (TTLCache (PyInt 128) ttl timer)) (Some (PyInt 128)) t f)
      | ArgNumber n \<Rightarrow> Decorator (py_cache K (CacheObj (TTLCache n ttl timer)) (Some n) t))"

text \<open>
  The wrapper a constructor ends in: the one it returned, or the one its decorator
  makes of \<open>f\<close> (\<^verbatim>\<open>@lru_cache(maxsize=32)\<close> above \<^verbatim>\<open>def f\<close>).
\<close>

definition wrapper_of :: "('f, 'w) decorated \<Rightarrow> 'f \<Rightarrow> 'w" where
  "wrapper_of r f = (case r of Decorator d \<Rightarrow> d f | Wrapper w \<Rightarrow> w)"

subsection \<open>A caller using the wrapper\<close>

text \<open>
  What one caller does with a wrapper, one operation after the other: a call, or
  \<^verbatim>\<open>cache_clear()\<close>. The run is \<open>None\<close> when a call never returns.
\<close>

datatype 'a operation = Call 'a | Clear

fun run_ops ::
  "('k, 'v, 'c) cache_methods \<Rightarrow> ('a, 'k, 'v, 'e, 'c) memo \<Rightarrow> 'a operation list
    \<Rightarrow> ('a, 'k, 'v, 'e, 'c) memo option" where
  "run_ops M w [] = Some w"
| "run_ops M w (Call a # ops) =
     (case wrapper M w a of None \<Rightarrow> None | Some (r, w') \<Rightarrow> run_ops M w' ops)"
| "run_ops M w (Clear # ops) = run_ops M (cache_clear M w) ops"

text \<open>
  The condition the statistics rest on, along a run of calls from \<open>w\<close>: a call whose
  key an earlier call of the run used (\<open>seen\<close>) finds it in the cache, and a call
  with a new key does not.
\<close>

fun undisturbed ::
  "('k, 'v, 'c) cache_methods \<Rightarrow> ('a, 'k, 'v, 'e, 'c) memo \<Rightarrow> 'k set \<Rightarrow> 'a list \<Rightarrow> bool" where
  "undisturbed M w seen [] = True"
| "undisturbed M w seen (a # as) =
     ((fst (cache_getitem M (cache w) (key w a)) \<noteq> None) = (key w a \<in> seen) \<and>
      (case wrapper M w a of
         None \<Rightarrow> False
       | Some (r, w') \<Rightarrow> undisturbed M w' (insert (key w a) seen) as))"

subsection \<open>Threads in the wrapper\<close>

text \<open>
  Several threads call the same wrapper. A thread is at one of the places where
  \<^verbatim>\<open>wrapper\<close> takes or has released the lock; each block under \<^verbatim>\<open>with cond\<close> is one
  step, and so is the run of \<^verbatim>\<open>func\<close>, which holds no lock.
\<close>

datatype ('a, 'k, 'v, 'e) thread =
    Calling 'a
  | Waiting 'a
  | Computing 'a 'k
  | Storing 'k 'v
  | Finishing 'k "'e exn + 'v"
  | Done "'e exn + 'v"

text \<open>
  \<open>Calling\<close>: at line 40, before the lock is taken. \<open>Waiting\<close>: asleep inside
  \<^verbatim>\<open>wait_for\<close> (line 41), the lock released, until a notification. \<open>Computing\<close>:
  line 51. \<open>Storing\<close>: \<^verbatim>\<open>func\<close> has returned, line 53 is next. \<open>Finishing\<close>: at
  line 59, with what the call will return or raise. \<open>Done\<close>: returned or raised.
\<close>

record ('a, 'k, 'v, 'e, 'c) system =
  shared :: "('a, 'k, 'v, 'e, 'c) memo"
  threads :: "('a, 'k, 'v, 'e) thread list"
  executed :: "'a list"

text \<open>
  \<open>executed\<close> is not a variable of the program: it records the arguments of each
  run of the body of \<^verbatim>\<open>func\<close>, the latest first.
\<close>

text \<open>\<^verbatim>\<open>cond.notify_all()\<close> (line 61): every sleeping thread tests its predicate again.\<close>

fun wake :: "('a, 'k, 'v, 'e) thread \<Rightarrow> ('a, 'k, 'v, 'e) thread" where
  "wake (Waiting a) = Calling a"
| "wake t = t"

text \<open>
  Thread \<open>i\<close> runs to the next place where it gives up the lock; \<open>None\<close> when it
  cannot run (it sleeps, it is done, or there is no such thread).
\<close>

definition step ::
  "('k, 'v, 'c) cache_methods \<Rightarrow> ('a, 'k, 'v, 'e, 'c) system \<Rightarrow> nat
    \<Rightarrow> ('a, 'k, 'v, 'e, 'c) system option" where
  "step M s i =
     (if i < length (threads s) then
        (case threads s ! i of
           Calling a \<Rightarrow>
             (let k = key (shared s) a in
              if k \<in> pending (shared s) then Some (s\<lparr>threads := (threads s)[i := Waiting a]\<rparr>)
              else
                (case enter M k (shared s) of
                   (Some result, w1) \<Rightarrow>
                     Some (s\<lparr>shared := w1, threads := (threads s)[i := Done (Inr result)]\<rparr>)
                 | (None, w1) \<Rightarrow>
                     Some (s\<lparr>shared := w1, threads := (threads s)[i := Computing a k]\<rparr>)))
         | Waiting a \<Rightarrow> None
         | Computing a k \<Rightarrow>
             (case func (shared s) a of
                Inr v \<Rightarrow>
                  Some (s\<lparr>threads := (threads s)[i := Storing k v], executed := a # executed s\<rparr>)
              | Inl e \<Rightarrow>
                  Some (s\<lparr>threads := (threads s)[i := Finishing k (Inl (Raised e))],
                          executed := a # executed s\<rparr>))
         | Storing k v \<Rightarrow>
             Some (s\<lparr>shared := store M k v (shared s),
                     threads := (threads s)[i := Finishing k (Inr v)]\<rparr>)
         | Finishing k r \<Rightarrow>
             (case finish k (shared s) of
                Inr w1 \<Rightarrow> Some (s\<lparr>shared := w1, threads := map wake ((threads s)[i := Done r])\<rparr>)
              | Inl e \<Rightarrow> Some (s\<lparr>threads := (threads s)[i := Done (Inl e)]\<rparr>))
         | Done r \<Rightarrow> None)
      else None)"

text \<open>
  What happens to the wrapper, in order: a thread takes a step, or some caller runs
  \<^verbatim>\<open>cache_clear()\<close>, one block under the lock.
\<close>

datatype event = Step nat | ClearCache

fun run ::
  "('k, 'v, 'c) cache_methods \<Rightarrow> ('a, 'k, 'v, 'e, 'c) system \<Rightarrow> event list
    \<Rightarrow> ('a, 'k, 'v, 'e, 'c) system option" where
  "run M s [] = Some s"
| "run M s (Step i # es) = (case step M s i of None \<Rightarrow> None | Some s' \<Rightarrow> run M s' es)"
| "run M s (ClearCache # es) = run M (s\<lparr>shared := cache_clear M (shared s)\<rparr>) es"

text \<open>The calls \<open>as\<close> arrive at a wrapper \<open>w\<close>, one thread each.\<close>

definition calls :: "('a, 'k, 'v, 'e, 'c) memo \<Rightarrow> 'a list \<Rightarrow> ('a, 'k, 'v, 'e, 'c) system" where
  "calls w as = \<lparr>shared = w, threads = map Calling as, executed = []\<rparr>"

text \<open>A thread is in flight for a key from its miss until it has removed the key.\<close>

fun in_flight :: "'k \<Rightarrow> ('a, 'k, 'v, 'e) thread \<Rightarrow> bool" where
  "in_flight k (Computing a k') = (k' = k)"
| "in_flight k (Storing k' v) = (k' = k)"
| "in_flight k (Finishing k' r) = (k' = k)"
| "in_flight k t = False"

definition holders :: "'k \<Rightarrow> ('a, 'k, 'v, 'e) thread list \<Rightarrow> nat" where
  "holders k ts = length (filter (in_flight k) ts)"

fun is_done :: "('a, 'k, 'v, 'e) thread \<Rightarrow> bool" where
  "is_done (Done r) = True"
| "is_done t = False"

fun is_waiting :: "('a, 'k, 'v, 'e) thread \<Rightarrow> bool" where
  "is_waiting (Waiting a) = True"
| "is_waiting t = False"

text \<open>
  What relates the threads to the set \<^verbatim>\<open>pending\<close>: a key is pending exactly when
  one thread is in flight for it, and a thread sleeps only on a pending key.
\<close>

definition consistent :: "('a, 'k, 'v, 'e, 'c) system \<Rightarrow> bool" where
  "consistent s =
     ((\<forall>k. holders k (threads s) = (if k \<in> pending (shared s) then 1 else 0)) \<and>
      (\<forall>i<length (threads s). \<forall>a.
         threads s ! i = Waiting a \<longrightarrow> key (shared s) a \<in> pending (shared s)))"

text \<open>The cache is a dict with finitely many keys, as every dict of the program is.\<close>

definition finite_dict :: "('k, 'v, 'c) cache_obj \<Rightarrow> bool" where
  "finite_dict c = (case c of Dict d \<Rightarrow> finite (dom d) | _ \<Rightarrow> False)"

text \<open>
  A cache keeps the key \<open>k\<close>: its objects have a property \<open>absent c\<close>, under which
  \<^verbatim>\<open>cache[k]\<close> raises \<^verbatim>\<open>KeyError\<close> and the property still holds, and a property
  \<open>cached c v\<close>, which holds after \<^verbatim>\<open>cache[k] = v\<close> on an object where the key was
  absent, and under which \<^verbatim>\<open>cache[k]\<close> gives \<open>v\<close> and the property still holds.
\<close>

definition retains ::
  "('k, 'v, 'c) cache_methods \<Rightarrow> 'k \<Rightarrow> (('k, 'v, 'c) cache_obj \<Rightarrow> bool)
    \<Rightarrow> (('k, 'v, 'c) cache_obj \<Rightarrow> 'v \<Rightarrow> bool) \<Rightarrow> bool" where
  "retains M k absent cached =
     ((\<forall>c. absent c \<longrightarrow>
         fst (cache_getitem M c k) = None \<and> absent (snd (cache_getitem M c k))) \<and>
      (\<forall>c v. absent c \<longrightarrow> cached (snd (cache_setitem M c k v)) v) \<and>
      (\<forall>c v. cached c v \<longrightarrow>
         fst (cache_getitem M c k) = Some v \<and> cached (snd (cache_getitem M c k)) v))"

text \<open>
  What holds of each thread, and of the system, while all calls have the key \<open>k\<close>,
  \<^verbatim>\<open>func\<close> returns on their arguments, the cache keeps the key, and nobody clears the
  cache: the body of \<^verbatim>\<open>func\<close> has run at most once, and a thread past the store
  carries the value of that run.
\<close>

definition same_key_thread ::
  "'k \<Rightarrow> (('k, 'v, 'c) cache_obj \<Rightarrow> bool) \<Rightarrow> (('k, 'v, 'c) cache_obj \<Rightarrow> 'v \<Rightarrow> bool)
    \<Rightarrow> ('a, 'k, 'v, 'e, 'c) system \<Rightarrow> ('a, 'k, 'v, 'e) thread \<Rightarrow> bool" where
  "same_key_thread k absent cached s t =
     (case t of
        Calling a \<Rightarrow> key (shared s) a = k \<and> (\<exists>v. func (shared s) a = Inr v)
      | Waiting a \<Rightarrow> key (shared s) a = k \<and> (\<exists>v. func (shared s) a = Inr v)
      | Computing a k' \<Rightarrow>
          k' = k \<and> (\<exists>v. func (shared s) a = Inr v) \<and> executed s = [] \<and>
          absent (cache (shared s))
      | Storing k' v \<Rightarrow>
          k' = k \<and> (\<exists>a. executed s = [a] \<and> func (shared s) a = Inr v) \<and>
          absent (cache (shared s))
      | Finishing k' r \<Rightarrow>
          k' = k \<and>
          (\<exists>a v. executed s = [a] \<and> func (shared s) a = Inr v \<and> r = Inr v \<and>
             cached (cache (shared s)) v)
      | Done r \<Rightarrow> (\<exists>a v. executed s = [a] \<and> func (shared s) a = Inr v \<and> r = Inr v))"

definition same_key_inv ::
  "'k \<Rightarrow> (('k, 'v, 'c) cache_obj \<Rightarrow> bool) \<Rightarrow> (('k, 'v, 'c) cache_obj \<Rightarrow> 'v \<Rightarrow> bool)
    \<Rightarrow> ('a, 'k, 'v, 'e, 'c) system \<Rightarrow> bool" where
  "same_key_inv k absent cached s =
     (consistent s \<and>
      (\<forall>i<length (threads s). same_key_thread k absent cached s (threads s ! i)) \<and>
      (executed s = [] \<and> k \<notin> pending (shared s) \<longrightarrow> absent (cache (shared s))) \<and>
      (\<forall>a v. executed s = [a] \<and> func (shared s) a = Inr v \<and> k \<notin> pending (shared s) \<longrightarrow>
         cached (cache (shared s)) v) \<and>
      (executed s = [] \<or> (\<exists>a v. executed s = [a] \<and> func (shared s) a = Inr v)))"

text \<open>
  A bound on the steps the threads can still take: a thread moves down the places
  of \<^verbatim>\<open>wrapper\<close>, and is sent back from \<open>Waiting\<close> to \<open>Calling\<close> only when another
  thread finishes.
\<close>

fun weight :: "('a, 'k, 'v, 'e) thread \<Rightarrow> nat" where
  "weight (Calling a) = 5"
| "weight (Waiting a) = 4"
| "weight (Computing a k) = 3"
| "weight (Storing k v) = 2"
| "weight (Finishing k r) = 1"
| "weight (Done r) = 0"

definition unfinished :: "('a, 'k, 'v, 'e) thread list \<Rightarrow> nat" where
  "unfinished ts = length (filter (\<lambda>t. \<not> is_done t) ts)"

definition remaining :: "('a, 'k, 'v, 'e) thread list \<Rightarrow> nat" where
  "remaining ts = unfinished ts * length ts + sum_list (map weight ts)"

section \<open>The imported parts\<close>

subsection \<open>A cache with expiry\<close>

text \<open>
  Modelled from the spec: the class \<^verbatim>\<open>TTLCache\<close> (imported at line 15) is not among
  the sources. This is the bounded cache of sections 3 and 4.1 of the spec with the
  TTL policy of section 4.2. An entry is a key, a value and an absolute expiry time;
  the entries are kept in insertion order; every entry costs one unit of the
  capacity, which is a positive integer or unbounded. The injected time source is the
  sequence of its readings, of which the cache has taken \<open>ttl_reads\<close> so far.
\<close>

record ('k, 'v) ttl_state =
  ttl_capacity :: number
  ttl_duration :: int
  ttl_timer :: "nat \<Rightarrow> int"
  ttl_reads :: nat
  ttl_entries :: "('k \<times> 'v \<times> int) list"

definition TTLCache_new :: "number \<Rightarrow> int \<Rightarrow> (nat \<Rightarrow> int) \<Rightarrow> ('k, 'v) ttl_state" where
  "TTLCache_new n d tm =
     \<lparr>ttl_capacity = n, ttl_duration = d, ttl_timer = tm, ttl_reads = 0, ttl_entries = []\<rparr>"

text \<open>
  Modelled from the spec: "an entry is treated as absent by lookups once current
  time \<open>\<ge>\<close> its expiry".
\<close>

definition expired :: "int \<Rightarrow> 'k \<times> 'v \<times> int \<Rightarrow> bool" where
  "expired t e = (snd (snd e) \<le> t)"

text \<open>
  Modelled from the spec: \<open>get(key)\<close> "first checks expiry; if expired, behaves as
  NotFound and lazily removes the entry".
\<close>

definition ttl_get :: "('k, 'v) ttl_state \<Rightarrow> 'k \<Rightarrow> 'v option \<times> ('k, 'v) ttl_state" where
  "ttl_get c k =
     (let t = ttl_timer c (ttl_reads c); c1 = c\<lparr>ttl_reads := ttl_reads c + 1\<rparr> in
      case find (\<lambda>e. fst e = k) (ttl_entries c) of
        None \<Rightarrow> (None, c1)
      | Some e \<Rightarrow>
          if expired t e then (None, c1\<lparr>ttl_entries := filter (\<lambda>x. fst x \<noteq> k) (ttl_entries c)\<rparr>)
          else (Some (fst (snd e)), c1))"

text \<open>
  Modelled from the spec: the victim of the TTL policy is "the entry with the
  nearest expiry", insertion order deciding among equal expiries.
\<close>

fun nearest :: "('k \<times> 'v \<times> int) list \<Rightarrow> ('k \<times> 'v \<times> int) option" where
  "nearest [] = None"
| "nearest (e # es) =
     (case nearest es of
        None \<Rightarrow> Some e
      | Some e' \<Rightarrow> if snd (snd e) \<le> snd (snd e') then Some e else Some e')"

text \<open>
  Modelled from the spec: "first remove any already-expired entries; if still over
  capacity, remove the entry with the nearest expiry".
\<close>

definition evict :: "int \<Rightarrow> number \<Rightarrow> ('k \<times> 'v \<times> int) list \<Rightarrow> ('k \<times> 'v \<times> int) list" where
  "evict t cap es =
     (let live = filter (\<lambda>e. \<not> expired t e) es in
      if PyInt (int (length live)) = cap then
        (case nearest live of None \<Rightarrow> live | Some e \<Rightarrow> remove1 e live)
      else live)"

text \<open>Modelled from the spec: whether a cost fits a capacity at all.\<close>

fun fits :: "int \<Rightarrow> number \<Rightarrow> bool" where
  "fits n (PyInt m) = (n \<le> m)"
| "fits n PyInf = True"

text \<open>
  Modelled from the spec: \<open>put(key, value)\<close>. A value that can never fit "fails
  with ValueTooLarge and leaves the cache unchanged"; "overwriting an existing key
  updates in place without requiring eviction"; and "if size == capacity and key is
  new", the policy makes room before the insertion. The expiry is set at insertion.
\<close>

definition ttl_put :: "('k, 'v) ttl_state \<Rightarrow> 'k \<Rightarrow> 'v \<Rightarrow> bool \<times> ('k, 'v) ttl_state" where
  "ttl_put c k v =
     (if \<not> fits 1 (ttl_capacity c) then (False, c)
      else
        (let t = ttl_timer c (ttl_reads c); c1 = c\<lparr>ttl_reads := ttl_reads c + 1\<rparr>;
             e = (k, v, t + ttl_duration c) in
         if k \<in> fst ` set (ttl_entries c) then
           (True, c1\<lparr>ttl_entries := map (\<lambda>x. if fst x = k then e else x) (ttl_entries c)\<rparr>)
         else if PyInt (int (length (ttl_entries c))) = ttl_capacity c then
           (True, c1\<lparr>ttl_entries := evict t (ttl_capacity c) (ttl_entries c) @ [e]\<rparr>)
         else (True, c1\<lparr>ttl_entries := ttl_entries c @ [e]\<rparr>)))"

text \<open>
  Modelled from the spec: the methods of \<^verbatim>\<open>TTLCache\<close> the module calls; \<open>clear()\<close>,
  \<open>capacity()\<close> and \<open>size()\<close> of section 4.1.
\<close>

definition ttl_methods :: "('k, 'v, ('k, 'v) ttl_state) cache_methods" where
  "ttl_methods =
     \<lparr>getitem = ttl_get, setitem = ttl_put, clear = (\<lambda>c. c\<lparr>ttl_entries := []\<rparr>),
      get_maxsize = ttl_capacity, currsize = (\<lambda>c. int (length (ttl_entries c)))\<rparr>"

subsection \<open>The key functions\<close>

text \<open>
  Modelled from the spec: the functions \<^verbatim>\<open>keys.hashkey\<close> and \<^verbatim>\<open>keys.typedkey\<close>
  (imported at line 17) are not among the sources. Section 6 of the spec gives their
  contract: calls equal in all positional and keyword values (keyword order
  irrelevant) get equal keys, and the typed key also tells arguments of different
  runtime types apart. A Python value has a runtime type and a value; an integer and
  a float of the same value are equal in Python.
\<close>

datatype pytype = IntType | FloatType | StrType

datatype pyval = PyInteger int | PyFloat rat | PyStr string

datatype pyvalue = Num rat | Str string

fun type_of :: "pyval \<Rightarrow> pytype" where
  "type_of (PyInteger n) = IntType"
| "type_of (PyFloat q) = FloatType"
| "type_of (PyStr s) = StrType"

fun value_of :: "pyval \<Rightarrow> pyvalue" where
  "value_of (PyInteger n) = Num (of_int n)"
| "value_of (PyFloat q) = Num q"
| "value_of (PyStr s) = Str s"

text \<open>Modelled from the spec: Python's \<^verbatim>\<open>==\<close> on these values.\<close>

definition py_eq :: "pyval \<Rightarrow> pyval \<Rightarrow> bool" where
  "py_eq x y = (value_of x = value_of y)"

text \<open>The arguments of a call: the positional ones in order, and the keyword ones.\<close>

type_synonym args = "pyval list \<times> (string \<rightharpoonup> pyval)"

type_synonym pykey = "pyvalue list \<times> (string \<rightharpoonup> pyvalue) \<times> pytype list \<times> (string \<rightharpoonup> pytype)"

definition py_hashkey :: "args \<Rightarrow> pykey" where
  "py_hashkey a = (map value_of (fst a), map_option value_of \<circ> snd a, [], Map.empty)"

definition py_typedkey :: "args \<Rightarrow> pykey" where
  "py_typedkey a =
     (map value_of (fst a), map_option value_of \<circ> snd a,
      map type_of (fst a), map_option type_of \<circ> snd a)"

definition py_keys :: "(args, pykey) keys" where
  "py_keys = \<lparr>hashkey = py_hashkey, typedkey = py_typedkey\<rparr>"

section \<open>Examples\<close>

text \<open>A key function on integers, and a function that raises on negative arguments.\<close>

definition plain_keys :: "(int, int) keys" where
  "plain_keys = \<lparr>hashkey = (\<lambda>a. a), typedkey = (\<lambda>a. a)\<rparr>"

definition square :: "int \<Rightarrow> string + int" where
  "square n = (if n < 0 then Inl ''negative'' else Inr (n * n))"

text \<open>A clock that advances by one at every reading.\<close>

definition ticking :: "nat \<Rightarrow> int" where
  "ticking n = int n"

text \<open>A wrapper over a cache with expiry whose capacity no value fits.\<close>

definition tiny :: "(int, int, int, string, (int, int) ttl_state) memo" where
  "tiny = py_cache plain_keys (CacheObj (TTLCache_new (PyInt 0) 5 ticking)) (Some (PyInt 0)) False square"

text \<open>The two properties by which a dict keeps a key.\<close>

definition dict_absent :: "'k \<Rightarrow> ('k, 'v, 'c) cache_obj \<Rightarrow> bool" where
  "dict_absent k c = (case c of Dict d \<Rightarrow> d k = None | _ \<Rightarrow> False)"

definition dict_cached :: "'k \<Rightarrow> ('k, 'v, 'c) cache_obj \<Rightarrow> 'v \<Rightarrow> bool" where
  "dict_cached k c v = (case c of Dict d \<Rightarrow> d k = Some v | _ \<Rightarrow> False)"

text \<open>A wrapper over an empty dict.\<close>

definition plain :: "(int, int, int, string, (int, int) ttl_state) memo" where
  "plain = py_cache plain_keys (Dict Map.empty) None False square"

text \<open>A wrapper over a cache with expiry, after some use: one entry, three hits, one miss.\<close>

definition warm :: "(int, int, int, string, (int, int) ttl_state) memo" where
  "warm =
     (py_cache plain_keys
        (CacheObj ((TTLCache_new (PyInt 2) 5 ticking)\<lparr>ttl_reads := 5, ttl_entries := [(2, 4, 6)]\<rparr>))
        (Some (PyInt 2)) False square)\<lparr>hits := 3, misses := 1\<rparr>"

text \<open>The wrapper that \<^verbatim>\<open>ttl_cache(maxsize=None, ttl=5)\<close> makes over the cache with expiry.\<close>

definition unbound :: "(int, int, int, string, (int, int) ttl_state) memo" where
  "unbound = py_cache plain_keys (UnboundTTLCache (TTLCache_new PyInf 5 ticking)) None False square"

text \<open>A function of Python values, and the calls \<^verbatim>\<open>f(1)\<close> and \<^verbatim>\<open>f(1.0)\<close>.\<close>

definition arity :: "args \<Rightarrow> string + int" where
  "arity a = Inr (int (length (fst a)))"

definition call_int :: args where
  "call_int = ([PyInteger 1], Map.empty)"

definition call_float :: args where
  "call_float = ([PyFloat 1], Map.empty)"

section \<open>Properties\<close>

subsection \<open>One call of the wrapper\<close>

lemma wrapper_fixed:
  "wrapper M w a = Some (r, w') \<Longrightarrow>
     func w' = func w \<and> key w' = key w \<and> maxsize w' = maxsize w \<and> typed w' = typed w"
  by (auto simp: wrapper_def enter_def store_def finish_def Let_def
      split: if_splits prod.splits option.splits sum.splits)

lemma wrapper_pending:
  "wrapper M w a = Some (r, w') \<Longrightarrow> key w a \<notin> pending w \<and> pending w' = pending w"
  by (auto simp: wrapper_def enter_def store_def finish_def Let_def
      split: if_splits prod.splits option.splits sum.splits)

lemma wrapper_returns:
  "key w a \<notin> pending w \<Longrightarrow> \<exists>r w'. wrapper M w a = Some (r, w')"
  by (auto simp: wrapper_def enter_def store_def finish_def Let_def
      split: if_splits prod.splits option.splits sum.splits)

lemma wrapper_hit:
  assumes "key w a \<notin> pending w" and "cache_getitem M (cache w) (key w a) = (Some v, c)"
  shows "wrapper M w a = Some (Inr v, w\<lparr>cache := c, hits := hits w + 1\<rparr>)"
  using assms by (simp add: wrapper_def enter_def)

lemma wrapper_miss_value:
  assumes "key w a \<notin> pending w" and "cache_getitem M (cache w) (key w a) = (None, c1)"
    and "func w a = Inr v" and "cache_setitem M c1 (key w a) v = (ok, c2)"
  shows "wrapper M w a = Some (Inr v, w\<lparr>cache := c2, misses := misses w + 1\<rparr>)"
  using assms by (simp add: wrapper_def enter_def store_def finish_def)

lemma wrapper_miss_raise:
  assumes "key w a \<notin> pending w" and "cache_getitem M (cache w) (key w a) = (None, c1)"
    and "func w a = Inl e"
  shows "wrapper M w a = Some (Inl (Raised e), w\<lparr>cache := c1, misses := misses w + 1\<rparr>)"
  using assms by (simp add: wrapper_def enter_def store_def finish_def)

lemma run_ops_parameters:
  "run_ops M w ops = Some w' \<Longrightarrow> cache_parameters w' = cache_parameters w"
proof (induction ops arbitrary: w)
  case Nil
  then show ?case by simp
next
  case (Cons x ops)
  show ?case
  proof (cases x)
    case (Call a)
    with Cons.prems obtain r w1 where 1: "wrapper M w a = Some (r, w1)"
      and 2: "run_ops M w1 ops = Some w'"
      by (auto split: option.splits)
    from wrapper_fixed[OF 1] have "cache_parameters w1 = cache_parameters w"
      by (simp add: cache_parameters_def)
    with Cons.IH[OF 2] show ?thesis by simp
  next
    case Clear
    with Cons.prems have "run_ops M (cache_clear M w) ops = Some w'" by simp
    from Cons.IH[OF this] show ?thesis
      by (simp add: cache_parameters_def cache_clear_def)
  qed
qed

subsection \<open>The fields a call never changes\<close>

lemma enter_fields:
  "enter M k w = (r, w1) \<Longrightarrow>
     key w1 = key w \<and> func w1 = func w \<and> maxsize w1 = maxsize w \<and> typed w1 = typed w \<and>
     pending w1 = (if r = None then insert k (pending w) else pending w)"
  by (auto simp: enter_def split: prod.splits option.splits)

lemma store_fields:
  "key (store M k v w) = key w \<and> func (store M k v w) = func w \<and>
   maxsize (store M k v w) = maxsize w \<and> typed (store M k v w) = typed w \<and>
   pending (store M k v w) = pending w \<and> hits (store M k v w) = hits w \<and>
   misses (store M k v w) = misses w"
  by (simp add: store_def split: prod.splits)

lemma step_length: "step M s i = Some s' \<Longrightarrow> i < length (threads s)"
  by (simp add: step_def split: if_splits)

lemma step_fixed:
  assumes st: "step M s i = Some s'"
  shows "func (shared s') = func (shared s) \<and> key (shared s') = key (shared s) \<and>
     maxsize (shared s') = maxsize (shared s) \<and> typed (shared s') = typed (shared s)"
proof -
  note i = step_length[OF st]
  show ?thesis
  proof (cases "threads s ! i")
    case (Calling a)
    obtain r w1 where e: "enter M (key (shared s) a) (shared s) = (r, w1)"
      by (cases "enter M (key (shared s) a) (shared s)")
    show ?thesis
    proof (cases "key (shared s) a \<in> pending (shared s)")
      case True
      with st i Calling have "shared s' = shared s" by (auto simp: step_def)
      then show ?thesis by simp
    next
      case False
      with st i Calling e have "shared s' = w1"
        by (cases r) (auto simp: step_def)
      with enter_fields[OF e] show ?thesis by simp
    qed
  next
    case (Waiting a)
    with st i show ?thesis by (simp add: step_def)
  next
    case (Computing a k)
    with st i have "shared s' = shared s"
      by (cases "func (shared s) a") (auto simp: step_def)
    then show ?thesis by simp
  next
    case (Storing k v)
    with st i have "shared s' = store M k v (shared s)" by (auto simp: step_def)
    then show ?thesis by (simp add: store_fields)
  next
    case (Finishing k r)
    with st i have "shared s' = shared s \<or> shared s' = (shared s)\<lparr>pending := pending (shared s) - {k}\<rparr>"
      by (cases "k \<in> pending (shared s)") (auto simp: step_def finish_def)
    then show ?thesis by auto
  next
    case (Done r)
    with st i show ?thesis by (simp add: step_def)
  qed
qed

lemma run_fixed:
  "run M s es = Some s' \<Longrightarrow>
     func (shared s') = func (shared s) \<and> key (shared s') = key (shared s) \<and>
     maxsize (shared s') = maxsize (shared s) \<and> typed (shared s') = typed (shared s)"
proof (induction es arbitrary: s)
  case Nil
  then show ?case by simp
next
  case (Cons ev es)
  show ?case
  proof (cases ev)
    case (Step i)
    with Cons.prems obtain s1 where 1: "step M s i = Some s1" and 2: "run M s1 es = Some s'"
      by (auto split: option.splits)
    from step_fixed[OF 1] Cons.IH[OF 2] show ?thesis by simp
  next
    case ClearCache
    with Cons.prems have "run M (s\<lparr>shared := cache_clear M (shared s)\<rparr>) es = Some s'" by simp
    from Cons.IH[OF this] show ?thesis by (simp add: cache_clear_def)
  qed
qed

subsection \<open>Threads in flight\<close>

lemma in_flight_wake: "in_flight k (wake t) = in_flight k t"
  by (cases t) simp_all

lemma holders_wake: "holders k (map wake ts) = holders k ts"
  by (induction ts) (simp_all add: holders_def in_flight_wake)

lemma holders_update:
  "i < length ts \<Longrightarrow>
     holders k (ts[i := t]) + (if in_flight k (ts ! i) then 1 else 0) =
     holders k ts + (if in_flight k t then 1 else 0)"
proof (induction ts arbitrary: i)
  case Nil
  then show ?case by simp
next
  case (Cons x xs)
  show ?case
  proof (cases i)
    case 0
    then show ?thesis by (simp add: holders_def)
  next
    case (Suc j)
    with Cons.prems have "j < length xs" by simp
    from Cons.IH[OF this] Suc show ?thesis by (simp add: holders_def)
  qed
qed

lemma holders_ge: "i < length ts \<Longrightarrow> in_flight k (ts ! i) \<Longrightarrow> 1 \<le> holders k ts"
  unfolding holders_def
  by (metis One_nat_def Suc_leI filter_empty_conv length_greater_0_conv nth_mem)

lemma holders_ex: "1 \<le> holders k ts \<Longrightarrow> \<exists>i<length ts. in_flight k (ts ! i)"
proof -
  assume "1 \<le> holders k ts"
  then have "filter (in_flight k) ts \<noteq> []" by (auto simp: holders_def)
  then obtain t where "t \<in> set ts" "in_flight k t" by (auto simp: filter_empty_conv)
  then show ?thesis by (auto simp: in_set_conv_nth)
qed

lemma holders_unique:
  assumes "holders k ts \<le> 1" "i < length ts" "j < length ts"
    "in_flight k (ts ! i)" "in_flight k (ts ! j)"
  shows "i = j"
proof (rule ccontr)
  assume ne: "i \<noteq> j"
  from holders_update[OF assms(2), of k "Done (Inl KeyError)"] assms(4)
  have 1: "holders k (ts[i := Done (Inl KeyError)]) + 1 = holders k ts" by simp
  from ne assms have "in_flight k (ts[i := Done (Inl KeyError)] ! j)" by simp
  with assms(3) have "1 \<le> holders k (ts[i := Done (Inl KeyError)])"
    by (intro holders_ge[of j]) simp_all
  with 1 assms(1) show False by simp
qed

lemma holders_update_out:
  "i < length ts \<Longrightarrow> \<not> in_flight k (ts ! i) \<Longrightarrow>
     holders k (ts[i := t]) = holders k ts + (if in_flight k t then 1 else 0)"
  using holders_update[of i ts k t] by simp

lemma holders_update_in:
  "i < length ts \<Longrightarrow> in_flight k (ts ! i) \<Longrightarrow>
     holders k (ts[i := t]) + 1 = holders k ts + (if in_flight k t then 1 else 0)"
  using holders_update[of i ts k t] by simp

lemma wake_not_waiting: "wake t \<noteq> Waiting a"
  by (cases t) simp_all

lemma step_consistent:
  fixes s :: "('a, 'k, 'v, 'e, 'c) system"
  assumes c: "consistent s" and st: "step M s i = Some s'"
  shows "consistent s'"
proof -
  from st have i: "i < length (threads s)" by (simp add: step_def split: if_splits)
  from c have h: "\<And>k. holders k (threads s) = (if k \<in> pending (shared s) then 1 else 0)"
    and wt: "\<And>j a. j < length (threads s) \<Longrightarrow> threads s ! j = Waiting a \<Longrightarrow>
                key (shared s) a \<in> pending (shared s)"
    by (auto simp: consistent_def)
  show ?thesis
  proof (cases "threads s ! i")
    case (Calling a)
    show ?thesis
    proof (cases "key (shared s) a \<in> pending (shared s)")
      case True
      with st i Calling have s': "s' = s\<lparr>threads := (threads s)[i := Waiting a]\<rparr>"
        by (simp add: step_def)
      show ?thesis unfolding consistent_def s'
        using i Calling True h wt by (auto simp: holders_update_out nth_list_update)
    next
      case False
      obtain r w1 where e: "enter M (key (shared s) a) (shared s) = (r, w1)"
        by (cases "enter M (key (shared s) a) (shared s)")
      note f = enter_fields[OF e]
      show ?thesis
      proof (cases r)
        case None
        with st i Calling False e
        have s': "s' = s\<lparr>shared := w1, threads := (threads s)[i := Computing a (key (shared s) a)]\<rparr>"
          by (simp add: step_def)
        show ?thesis unfolding consistent_def s'
          using i Calling False h wt f None by (auto simp: holders_update_out nth_list_update)
      next
        case (Some v)
        with st i Calling False e
        have s': "s' = s\<lparr>shared := w1, threads := (threads s)[i := Done (Inr v)]\<rparr>"
          by (simp add: step_def)
        show ?thesis unfolding consistent_def s'
          using i Calling False h wt f Some by (auto simp: holders_update_out nth_list_update)
      qed
    qed
  next
    case (Waiting a)
    with st i show ?thesis by (simp add: step_def)
  next
    case (Computing a k)
    define t' :: "('a, 'k, 'v, 'e) thread" where
      "t' = (case func (shared s) a of Inr v \<Rightarrow> Storing k v | Inl e \<Rightarrow> Finishing k (Inl (Raised e)))"
    from Computing st i
    have s': "s' = s\<lparr>threads := (threads s)[i := t'], executed := a # executed s\<rparr>"
      by (auto simp: step_def t'_def split: sum.splits)
    have t': "\<And>k'. in_flight k' t' = (k' = k)" "\<And>b. t' \<noteq> Waiting b"
      by (auto simp: t'_def split: sum.splits)
    have "holders k' ((threads s)[i := t']) = holders k' (threads s)" for k'
      using holders_update[OF i, of k' t'] Computing t' by (cases "k' = k") auto
    then show ?thesis unfolding consistent_def s'
      using i Computing h wt t' by (auto simp: nth_list_update)
  next
    case (Storing k v)
    with st i have s': "s' = s\<lparr>shared := store M k v (shared s),
        threads := (threads s)[i := Finishing k (Inr v)]\<rparr>"
      by (simp add: step_def)
    have "holders k' ((threads s)[i := Finishing k (Inr v)]) = holders k' (threads s)" for k'
      using holders_update[OF i, of k' "Finishing k (Inr v)"] Storing by (cases "k' = k") auto
    then show ?thesis unfolding consistent_def s'
      using i Storing h wt by (auto simp: nth_list_update store_fields)
  next
    case (Finishing k r)
    from holders_ge[OF i, of k] Finishing h[of k] have kp: "k \<in> pending (shared s)"
      by (auto split: if_splits)
    with st i Finishing
    have s': "s' = s\<lparr>shared := (shared s)\<lparr>pending := pending (shared s) - {k}\<rparr>,
        threads := map wake ((threads s)[i := Done r])\<rparr>"
      by (simp add: step_def finish_def)
    have "holders k' ((threads s)[i := Done r]) = (if k' \<in> pending (shared s) - {k} then 1 else 0)" for k'
      using holders_update[OF i, of k' "Done r"] Finishing h[of k'] kp by (cases "k' = k") auto
    then show ?thesis unfolding consistent_def s'
      by (simp add: holders_wake wake_not_waiting)
  next
    case (Done r)
    with st i show ?thesis by (simp add: step_def)
  qed
qed

subsection \<open>The configuration of a wrapper\<close>

text \<open>
  C9. \<^verbatim>\<open>cache_parameters()\<close> of a wrapper built by \<^verbatim>\<open>_cache(cache, maxsize, typed)(func)\<close>
  is the pair of \<^verbatim>\<open>maxsize\<close> and \<^verbatim>\<open>typed\<close> given at construction, and it is still that
  pair after any sequence of calls and \<^verbatim>\<open>cache_clear()\<close> by one caller, and in every
  state that threads calling the wrapper and clearing its cache can reach.
\<close>

theorem cache_parameters_fixed:
  "cache_parameters (py_cache K c m t f) = \<lparr>p_maxsize = m, p_typed = t\<rparr> \<and>
   (\<forall>ops w'. run_ops M (py_cache K c m t f) ops = Some w' \<longrightarrow>
      cache_parameters w' = \<lparr>p_maxsize = m, p_typed = t\<rparr>) \<and>
   (\<forall>as es s. run M (calls (py_cache K c m t f) as) es = Some s \<longrightarrow>
      cache_parameters (shared s) = \<lparr>p_maxsize = m, p_typed = t\<rparr>)"
proof -
  have 0: "cache_parameters (py_cache K c m t f) = \<lparr>p_maxsize = m, p_typed = t\<rparr>"
    by (simp add: cache_parameters_def py_cache_def)
  have 1: "cache_parameters w' = \<lparr>p_maxsize = m, p_typed = t\<rparr>"
    if "run_ops M (py_cache K c m t f) ops = Some w'" for ops w'
    using run_ops_parameters[OF that] 0 by simp
  have 2: "cache_parameters (shared s) = \<lparr>p_maxsize = m, p_typed = t\<rparr>"
    if "run M (calls (py_cache K c m t f) as) es = Some s" for as es s
    using run_fixed[OF that] 0 by (simp add: cache_parameters_def calls_def)
  from 0 1 2 show ?thesis by blast
qed

text \<open>Two runs of a wrapper over a dict, used as examples below.\<close>

lemma example_ops:
  "run_ops ttl_methods (py_cache plain_keys (Dict Map.empty) None True square)
     [Call 2, Call 3, Clear, Call 2, Call 2] =
   Some \<lparr>func = square, key = (\<lambda>a. a), maxsize = None, typed = True,
         cache = Dict [2 \<mapsto> 4], pending = {}, hits = 1, misses = 1\<rparr>"
  by (simp add: wrapper_def enter_def store_def finish_def py_cache_def plain_keys_def
      square_def cache_clear_def)

lemma example_threads:
  "run ttl_methods (calls (py_cache plain_keys (Dict Map.empty) None True square) [2, 3])
     [Step 0, Step 1, ClearCache, Step 1, Step 0] =
   Some \<lparr>shared = \<lparr>func = square, key = (\<lambda>a. a), maxsize = None, typed = True,
           cache = Dict Map.empty, pending = {2, 3}, hits = 0, misses = 0\<rparr>,
         threads = [Storing 2 4, Storing 3 9], executed = [2, 3]\<rparr>"
  by (simp add: step_def calls_def enter_def store_def finish_def py_cache_def plain_keys_def
      square_def cache_clear_def insert_commute)

theorem cache_parameters_fixed_witness:
  "run_ops ttl_methods (py_cache plain_keys (Dict Map.empty) None True square)
     [Call 2, Call 3, Clear, Call 2, Call 2] =
   Some \<lparr>func = square, key = (\<lambda>a. a), maxsize = None, typed = True,
         cache = Dict [2 \<mapsto> 4], pending = {}, hits = 1, misses = 1\<rparr> \<and>
   cache_parameters \<lparr>func = square, key = (\<lambda>a. a), maxsize = None, typed = True,
         cache = (Dict [2 \<mapsto> 4] :: (int, int, (int, int) ttl_state) cache_obj),
         pending = {}, hits = 1, misses = 1\<rparr> =
     \<lparr>p_maxsize = None, p_typed = True\<rparr> \<and>
   run ttl_methods (calls (py_cache plain_keys (Dict Map.empty) None True square) [2, 3])
     [Step 0, Step 1, ClearCache, Step 1, Step 0] =
   Some \<lparr>shared = \<lparr>func = square, key = (\<lambda>a. a), maxsize = None, typed = True,
           cache = Dict Map.empty, pending = {2, 3}, hits = 0, misses = 0\<rparr>,
         threads = [Storing 2 4, Storing 3 9], executed = [2, 3]\<rparr> \<and>
   cache_parameters \<lparr>func = square, key = (\<lambda>a. a), maxsize = None, typed = True,
           cache = (Dict Map.empty :: (int, int, (int, int) ttl_state) cache_obj),
           pending = {2, 3}, hits = 0, misses = 0\<rparr> =
     \<lparr>p_maxsize = None, p_typed = True\<rparr>"
proof -
  note th = cache_parameters_fixed[of plain_keys "Dict Map.empty" None True square ttl_methods]
  note seq = th[THEN conjunct2, THEN conjunct1, rule_format]
  note par = th[THEN conjunct2, THEN conjunct2, rule_format]
  from seq[OF example_ops] par[OF example_threads] example_ops example_threads
  show ?thesis by simp
qed

subsection \<open>The decorator without parentheses\<close>

text \<open>
  C10. Each of the six constructors, given a callable as \<^verbatim>\<open>maxsize\<close>, returns the
  wrapper of that callable over a cache of its class built with capacity 128, and
  \<^verbatim>\<open>cache_parameters()\<close> of that wrapper reports \<^verbatim>\<open>maxsize\<close> 128 and the \<^verbatim>\<open>typed\<close> given.
\<close>

theorem bare_decorator:
  "(\<exists>w. fifo_cache FIFOCache K (ArgCallable f) t = Wrapper w \<and> func w = f \<and>
        cache w = CacheObj (FIFOCache (PyInt 128)) \<and>
        cache_parameters w = \<lparr>p_maxsize = Some (PyInt 128), p_typed = t\<rparr>) \<and>
   (\<exists>w. lfu_cache LFUCache K (ArgCallable f) t = Wrapper w \<and> func w = f \<and>
        cache w = CacheObj (LFUCache (PyInt 128)) \<and>
        cache_parameters w = \<lparr>p_maxsize = Some (PyInt 128), p_typed = t\<rparr>) \<and>
   (\<exists>w. lru_cache LRUCache K (ArgCallable f) t = Wrapper w \<and> func w = f \<and>
        cache w = CacheObj (LRUCache (PyInt 128)) \<and>
        cache_parameters w = \<lparr>p_maxsize = Some (PyInt 128), p_typed = t\<rparr>) \<and>
   (\<exists>w. mru_cache MRUCache K (ArgCallable f) t = Wrapper w \<and> func w = f \<and>
        cache w = CacheObj (MRUCache (PyInt 128)) \<and>
        cache_parameters w = \<lparr>p_maxsize = Some (PyInt 128), p_typed = t\<rparr>) \<and>
   (\<exists>w. rr_cache RRCache K (ArgCallable f) choice t = Wrapper w \<and> func w = f \<and>
        cache w = CacheObj (RRCache (PyInt 128) choice) \<and>
        cache_parameters w = \<lparr>p_maxsize = Some (PyInt 128), p_typed = t\<rparr>) \<and>
   (\<exists>w. ttl_cache TTLCache K (ArgCallable f) ttl timer t = Wrapper w \<and> func w = f \<and>
        cache w = CacheObj (TTLCache (PyInt 128) ttl timer) \<and>
        cache_parameters w = \<lparr>p_maxsize = Some (PyInt 128), p_typed = t\<rparr>)"
  by (simp add: fifo_cache_def lfu_cache_def lru_cache_def mru_cache_def rr_cache_def
      ttl_cache_def py_cache_def cache_parameters_def)

subsection \<open>The statistics snapshot\<close>

lemma cache_info_eq:
  "cache_info M w =
     CacheInfo (hits w) (misses w) (cache_maxsize M (cache w)) (cache_currsize M (cache w))"
  by (cases "cache w") (simp_all add: cache_info_def)

lemma finite_dict_getitem:
  "finite_dict c \<Longrightarrow> cache_getitem M c k = (r, c') \<Longrightarrow> c' = c"
  by (cases c) (auto simp: finite_dict_def)

lemma finite_dict_setitem:
  "finite_dict c \<Longrightarrow> cache_setitem M c k v = (ok, c') \<Longrightarrow> finite_dict c'"
  by (cases c) (auto simp: finite_dict_def)

lemma finite_dict_wrapper:
  assumes "wrapper M w a = Some (r, w')" and "finite_dict (cache w)"
  shows "finite_dict (cache w')"
proof -
  from assms(1) have p: "key w a \<notin> pending w" by (simp add: wrapper_pending)
  obtain x c1 where g: "cache_getitem M (cache w) (key w a) = (x, c1)"
    by (cases "cache_getitem M (cache w) (key w a)")
  from finite_dict_getitem[OF assms(2) g] have c1: "c1 = cache w" .
  show ?thesis
  proof (cases x)
    case (Some v)
    with wrapper_hit[OF p, of M v c1] g assms c1 show ?thesis by simp
  next
    case None
    show ?thesis
    proof (cases "func w a")
      case (Inl e)
      with wrapper_miss_raise[OF p, of M c1 e] g None assms c1 show ?thesis by simp
    next
      case (Inr v)
      obtain ok c2 where st: "cache_setitem M c1 (key w a) v = (ok, c2)"
        by (cases "cache_setitem M c1 (key w a) v")
      from finite_dict_setitem[OF _ st] assms(2) c1 have "finite_dict c2" by simp
      with wrapper_miss_value[OF p _ Inr st] g None assms(1) show ?thesis by simp
    qed
  qed
qed

lemma finite_dict_run_ops:
  "run_ops M w ops = Some w' \<Longrightarrow> finite_dict (cache w) \<Longrightarrow> finite_dict (cache w')"
proof (induction ops arbitrary: w)
  case Nil
  then show ?case by simp
next
  case (Cons x ops)
  show ?case
  proof (cases x)
    case (Call a)
    with Cons.prems obtain r w1 where 1: "wrapper M w a = Some (r, w1)"
      and 2: "run_ops M w1 ops = Some w'"
      by (auto split: option.splits)
    from finite_dict_wrapper[OF 1 Cons.prems(2)] Cons.IH[OF 2] show ?thesis by simp
  next
    case Clear
    with Cons.prems have 1: "run_ops M (cache_clear M w) ops = Some w'" by simp
    from Cons.prems(2) have "finite_dict (cache (cache_clear M w))"
      by (cases "cache w") (simp_all add: finite_dict_def cache_clear_def)
    from Cons.IH[OF 1 this] show ?thesis .
  qed
qed

text \<open>
  C6. \<^verbatim>\<open>cache_info()\<close> is a tuple of the two counters, the reported \<^verbatim>\<open>maxsize\<close> and
  the current size, all four read from the one state it is given. The constructors
  other than \<^verbatim>\<open>ttl_cache\<close>, given \<^verbatim>\<open>maxsize=None\<close>, wrap over an empty dict; whatever
  one caller then does with such a wrapper, its cache is a dict of finitely many
  keys, the reported \<^verbatim>\<open>maxsize\<close> is \<^verbatim>\<open>None\<close> and the reported size is the number of
  keys of the dict.
\<close>

theorem cache_info_snapshot:
  "cache_info M w =
     CacheInfo (hits w) (misses w) (cache_maxsize M (cache w)) (cache_currsize M (cache w)) \<and>
   fifo_cache FIFOCache K ArgNone t = Decorator (py_cache K (Dict Map.empty) None t) \<and>
   lfu_cache LFUCache K ArgNone t = Decorator (py_cache K (Dict Map.empty) None t) \<and>
   lru_cache LRUCache K ArgNone t = Decorator (py_cache K (Dict Map.empty) None t) \<and>
   mru_cache MRUCache K ArgNone t = Decorator (py_cache K (Dict Map.empty) None t) \<and>
   rr_cache RRCache K ArgNone choice t = Decorator (py_cache K (Dict Map.empty) None t) \<and>
   (\<forall>f ops w'. run_ops M (py_cache K (Dict Map.empty) None t f) ops = Some w' \<longrightarrow>
      (\<exists>d. cache w' = Dict d \<and> finite (dom d) \<and>
           cache_info M w' = CacheInfo (hits w') (misses w') None (int (card (dom d)))))"
proof -
  have "\<exists>d. cache w' = Dict d \<and> finite (dom d) \<and>
           cache_info M w' = CacheInfo (hits w') (misses w') None (int (card (dom d)))"
    if r: "run_ops M (py_cache K (Dict Map.empty) None t f) ops = Some w'" for f ops w'
  proof -
    have "finite_dict (cache (py_cache K (Dict Map.empty) None t f))"
      by (simp add: finite_dict_def py_cache_def)
    from finite_dict_run_ops[OF r this] obtain d where "cache w' = Dict d" "finite (dom d)"
      by (cases "cache w'") (auto simp: finite_dict_def)
    then show ?thesis by (simp add: cache_info_def)
  qed
  then have runs: "\<forall>f ops w'. run_ops M (py_cache K (Dict Map.empty) None t f) ops = Some w' \<longrightarrow>
      (\<exists>d. cache w' = Dict d \<and> finite (dom d) \<and>
           cache_info M w' = CacheInfo (hits w') (misses w') None (int (card (dom d))))"
    by blast
  have ctor: "fifo_cache FIFOCache K ArgNone t = Decorator (py_cache K (Dict Map.empty) None t)"
    "lfu_cache LFUCache K ArgNone t = Decorator (py_cache K (Dict Map.empty) None t)"
    "lru_cache LRUCache K ArgNone t = Decorator (py_cache K (Dict Map.empty) None t)"
    "mru_cache MRUCache K ArgNone t = Decorator (py_cache K (Dict Map.empty) None t)"
    "rr_cache RRCache K ArgNone choice t = Decorator (py_cache K (Dict Map.empty) None t)"
    by (simp_all add: fifo_cache_def lfu_cache_def lru_cache_def mru_cache_def rr_cache_def)
  from cache_info_eq[of M w] ctor runs show ?thesis by (intro conjI)
qed

theorem cache_info_snapshot_witness:
  "run_ops ttl_methods (py_cache plain_keys (Dict Map.empty) None True square)
     [Call 2, Call 3, Clear, Call 2, Call 2] =
   Some \<lparr>func = square, key = (\<lambda>a. a), maxsize = None, typed = True,
         cache = Dict [2 \<mapsto> 4], pending = {}, hits = 1, misses = 1\<rparr> \<and>
   cache_info ttl_methods \<lparr>func = square, key = (\<lambda>a. a), maxsize = None, typed = True,
         cache = Dict [2 \<mapsto> (4::int)], pending = {}, hits = 1, misses = 1\<rparr> =
     CacheInfo 1 1 None 1"
proof -
  let ?w = "\<lparr>func = square, key = (\<lambda>a. a), maxsize = None, typed = True,
         cache = Dict [2 \<mapsto> (4::int)], pending = {}, hits = 1, misses = 1\<rparr>
    :: (int, int, int, string, (int, int) ttl_state) memo"
  note th = cache_info_snapshot[of ttl_methods _ _ plain_keys True]
  note runs = th[THEN conjunct2, THEN conjunct2, THEN conjunct2, THEN conjunct2,
      THEN conjunct2, THEN conjunct2, rule_format]
  from runs[OF example_ops] obtain d where "cache ?w = Dict d"
    "cache_info ttl_methods ?w = CacheInfo (hits ?w) (misses ?w) None (int (card (dom d)))"
    by blast
  then have "cache_info ttl_methods ?w = CacheInfo 1 1 None 1" by auto
  with example_ops show ?thesis by simp
qed

subsection \<open>Hits and misses\<close>

lemma wrapper_counts:
  assumes "wrapper M w a = Some (r, w')"
  shows "case fst (cache_getitem M (cache w) (key w a)) of
           Some v \<Rightarrow> r = Inr v \<and> hits w' = hits w + 1 \<and> misses w' = misses w
         | None \<Rightarrow> hits w' = hits w \<and> misses w' = misses w + 1"
proof -
  from assms have p: "key w a \<notin> pending w" by (simp add: wrapper_pending)
  obtain x c1 where g: "cache_getitem M (cache w) (key w a) = (x, c1)"
    by (cases "cache_getitem M (cache w) (key w a)")
  show ?thesis
  proof (cases x)
    case (Some v)
    with wrapper_hit[OF p, of M v c1] g assms show ?thesis by auto
  next
    case None
    show ?thesis
    proof (cases "func w a")
      case (Inl e)
      with wrapper_miss_raise[OF p, of M c1 e] g None assms show ?thesis by auto
    next
      case (Inr v)
      obtain ok c2 where st: "cache_setitem M c1 (key w a) v = (ok, c2)"
        by (cases "cache_setitem M c1 (key w a) v")
      with wrapper_miss_value[OF p _ Inr st] g None assms show ?thesis by auto
    qed
  qed
qed

lemma undisturbed_counts:
  "undisturbed M w seen as \<Longrightarrow>
     \<exists>w'. run_ops M w (map Call as) = Some w' \<and>
       hits w' + misses w' = hits w + misses w + int (length as) \<and>
       misses w' = misses w + int (card (key w ` set as - seen))"
proof (induction as arbitrary: w seen)
  case Nil
  then show ?case by simp
next
  case (Cons a as)
  let ?k = "key w a"
  from Cons.prems obtain r w1 where w1: "wrapper M w a = Some (r, w1)"
    and u: "undisturbed M w1 (insert ?k seen) as"
    and g: "(fst (cache_getitem M (cache w) ?k) \<noteq> None) = (?k \<in> seen)"
    by (auto split: option.splits)
  from wrapper_fixed[OF w1] have k1: "key w1 = key w" by simp
  from Cons.IH[OF u] obtain w' where r: "run_ops M w1 (map Call as) = Some w'"
    and hm: "hits w' + misses w' = hits w1 + misses w1 + int (length as)"
    and m: "misses w' = misses w1 + int (card (key w1 ` set as - insert ?k seen))"
    by blast
  have split: "key w ` set (a # as) - seen =
      (if ?k \<in> seen then {} else {?k}) \<union> (key w ` set as - insert ?k seen)"
    by auto
  have card: "card (key w ` set (a # as) - seen) =
      (if ?k \<in> seen then 0 else 1) + card (key w ` set as - insert ?k seen)"
    unfolding split by (subst card_Un_disjoint) auto
  from wrapper_counts[OF w1] g
  have c: "hits w1 + misses w1 = hits w + misses w + 1"
    "misses w1 = misses w + (if ?k \<in> seen then 0 else 1)"
    by (auto split: option.splits)
  from r w1 have "run_ops M w (map Call (a # as)) = Some w'" by simp
  moreover from hm c have "hits w' + misses w' = hits w + misses w + int (length (a # as))"
    by simp
  moreover from m c card k1
  have "misses w' = misses w + int (card (key w ` set (a # as) - seen))"
    by simp
  ultimately show ?case by blast
qed

lemma dict_undisturbed:
  "cache w = Dict d \<Longrightarrow> pending w = {} \<Longrightarrow> \<forall>a\<in>set as. \<exists>v. func w a = Inr v \<Longrightarrow>
     undisturbed M w (dom d) as"
proof (induction as arbitrary: w d)
  case Nil
  then show ?case by simp
next
  case (Cons a as)
  let ?k = "key w a"
  from Cons.prems(3) obtain v where v: "func w a = Inr v" by auto
  from Cons.prems(2) have p: "?k \<notin> pending w" by simp
  have g: "cache_getitem M (cache w) ?k = (d ?k, Dict d)" using Cons.prems(1) by simp
  obtain r w' where w': "wrapper M w a = Some (r, w')"
    and c': "cache w' = Dict (if ?k \<in> dom d then d else d(?k \<mapsto> v))"
  proof (cases "d ?k")
    case None
    have "cache_setitem M (Dict d) ?k v = (True, Dict (d(?k \<mapsto> v)))" by simp
    from wrapper_miss_value[OF p _ v this] g None that show ?thesis by (auto simp: dom_def)
  next
    case (Some x)
    from wrapper_hit[OF p, of M x "Dict d"] g Some that show ?thesis by (auto simp: dom_def)
  qed
  from wrapper_fixed[OF w'] wrapper_pending[OF w'] Cons.prems
  have f: "pending w' = {}" "\<forall>a\<in>set as. \<exists>v. func w' a = Inr v" by simp_all
  have "dom (if ?k \<in> dom d then d else d(?k \<mapsto> v)) = insert ?k (dom d)" by auto
  with Cons.IH[OF c' f] have "undisturbed M w' (insert ?k (dom d)) as" by simp
  with w' g show ?case by (auto simp: dom_def)
qed

lemma dict_counts:
  assumes "\<forall>a\<in>set as. \<exists>v. f a = Inr v"
  shows "\<exists>w'. run_ops M (py_cache K (Dict Map.empty) None t f) (map Call as) = Some w' \<and>
         hits w' + misses w' = int (length as) \<and>
         misses w' = int (card (key (py_cache K (Dict Map.empty) None t f) ` set as))"
proof -
  let ?w = "py_cache K (Dict Map.empty) None t f"
  have "cache ?w = Dict Map.empty" "pending ?w = {}" "\<forall>a\<in>set as. \<exists>v. func ?w a = Inr v"
    using assms by (simp_all add: py_cache_def)
  from dict_undisturbed[OF this, of M] have "undisturbed M ?w {} as" by simp
  from undisturbed_counts[OF this] show ?thesis by (simp add: py_cache_def)
qed

text \<open>
  C2. A call that returns or raises has added one to exactly one counter: to \<^verbatim>\<open>hits\<close>
  when \<^verbatim>\<open>cache[k]\<close> gave a value, which is then the value returned, and to
  \<^verbatim>\<open>misses\<close> when it raised \<^verbatim>\<open>KeyError\<close>. Hence, for a sequence of \<open>N\<close> calls in which
  every call with a key used earlier in the sequence finds it cached and every call
  with a new key does not, all the calls complete, the two counters have grown by
  \<open>N\<close> together, and \<^verbatim>\<open>misses\<close> has grown by the number \<open>M \<le> N\<close> of distinct keys. A
  new wrapper over a dict, with a \<^verbatim>\<open>func\<close> that returns on all the arguments, is
  such a case: after the calls, \<^verbatim>\<open>hits + misses\<close> is \<open>N\<close> and \<^verbatim>\<open>misses\<close> is \<open>M\<close>.
\<close>

theorem hit_miss_accounting:
  "(\<forall>r w'. wrapper M w a = Some (r, w') \<longrightarrow>
      (case fst (cache_getitem M (cache w) (key w a)) of
         Some v \<Rightarrow> r = Inr v \<and> hits w' = hits w + 1 \<and> misses w' = misses w
       | None \<Rightarrow> hits w' = hits w \<and> misses w' = misses w + 1)) \<and>
   (\<forall>as. undisturbed M w {} as \<longrightarrow>
      (\<exists>w'. run_ops M w (map Call as) = Some w' \<and>
         card (key w ` set as) \<le> length as \<and>
         hits w' + misses w' = hits w + misses w + int (length as) \<and>
         misses w' = misses w + int (card (key w ` set as)))) \<and>
   (\<forall>K t f as. (\<forall>a\<in>set as. \<exists>v. f a = Inr v) \<longrightarrow>
      (\<exists>w'. run_ops M (py_cache K (Dict Map.empty) None t f) (map Call as) = Some w' \<and>
         hits w' + misses w' = int (length as) \<and>
         misses w' = int (card (key (py_cache K (Dict Map.empty) None t f) ` set as))))"
proof -
  have le: "card (key w ` set as) \<le> length as" for as
    by (meson card_image_le card_length le_trans List.finite_set)
  have 1: "\<forall>r w'. wrapper M w a = Some (r, w') \<longrightarrow>
      (case fst (cache_getitem M (cache w) (key w a)) of
         Some v \<Rightarrow> r = Inr v \<and> hits w' = hits w + 1 \<and> misses w' = misses w
       | None \<Rightarrow> hits w' = hits w \<and> misses w' = misses w + 1)"
    using wrapper_counts[of M w a] by blast
  have 2: "\<forall>as. undisturbed M w {} as \<longrightarrow>
      (\<exists>w'. run_ops M w (map Call as) = Some w' \<and>
         card (key w ` set as) \<le> length as \<and>
         hits w' + misses w' = hits w + misses w + int (length as) \<and>
         misses w' = misses w + int (card (key w ` set as)))"
    using undisturbed_counts[of M w "{}"] le by simp
  have 3: "\<forall>K t f as. (\<forall>a\<in>set as. \<exists>v. f a = Inr v) \<longrightarrow>
      (\<exists>w'. run_ops M (py_cache K (Dict Map.empty) None t f) (map Call as) = Some w' \<and>
         hits w' + misses w' = int (length as) \<and>
         misses w' = int (card (key (py_cache K (Dict Map.empty) None t f) ` set as)))"
    using dict_counts[of _ _ M] by blast
  from 1 2 3 show ?thesis by (intro conjI)
qed

lemma example_undisturbed:
  "undisturbed ttl_methods (py_cache plain_keys (Dict Map.empty) None False square) {}
     [2, 3, 2, 2, 3]"
  by (simp add: wrapper_def enter_def store_def finish_def py_cache_def plain_keys_def
      square_def)

theorem hit_miss_accounting_witness:
  "undisturbed ttl_methods (py_cache plain_keys (Dict Map.empty) None False square) {}
     [2, 3, 2, 2, 3] \<and>
   (\<exists>w'. run_ops ttl_methods (py_cache plain_keys (Dict Map.empty) None False square)
            (map Call [2, 3, 2, 2, 3]) = Some w' \<and> hits w' + misses w' = 5 \<and> misses w' = 2)"
proof -
  let ?w = "py_cache plain_keys (Dict Map.empty) None False square
    :: (int, int, int, string, (int, int) ttl_state) memo"
  have k: "key ?w ` set [2, 3, 2, 2, 3] = {2, 3}" by (auto simp: py_cache_def plain_keys_def)
  have z: "hits ?w = 0" "misses ?w = 0" by (simp_all add: py_cache_def)
  note th = hit_miss_accounting[of ttl_methods ?w 2]
  note counts = th[THEN conjunct2, THEN conjunct1, rule_format]
  from counts[OF example_undisturbed]
  obtain w' where "run_ops ttl_methods ?w (map Call [2, 3, 2, 2, 3]) = Some w'"
    "hits w' + misses w' = hits ?w + misses ?w + int (length [2, 3, 2, 2, 3 :: int])"
    "misses w' = misses ?w + int (card (key ?w ` set [2, 3, 2, 2, 3]))"
    by blast
  with k z example_undisturbed show ?thesis by simp
qed

subsection \<open>A value the cache refuses\<close>

text \<open>
  C3. The key is not cached, \<^verbatim>\<open>func\<close> returns \<open>v\<close>, and the store raises
  \<^verbatim>\<open>ValueError\<close> leaving the cache as it was (\<open>c1\<close>, in which the key is absent). Then
  the call returns \<open>v\<close>, the wrapper's cache is \<open>c1\<close> and only \<^verbatim>\<open>misses\<close> has changed;
  and the next call with these arguments misses again and returns \<open>v\<close> computed anew.
\<close>

theorem value_too_large_swallowed:
  assumes "key w a \<notin> pending w"
    and "cache_getitem M (cache w) (key w a) = (None, c1)"
    and "func w a = Inr v"
    and "cache_setitem M c1 (key w a) v = (False, c1)"
    and "fst (cache_getitem M c1 (key w a)) = None"
  shows "wrapper M w a = Some (Inr v, w\<lparr>cache := c1, misses := misses w + 1\<rparr>) \<and>
    (\<exists>w''. wrapper M (w\<lparr>cache := c1, misses := misses w + 1\<rparr>) a = Some (Inr v, w'') \<and>
       hits w'' = hits w \<and> misses w'' = misses w + 2)"
proof -
  let ?w1 = "w\<lparr>cache := c1, misses := misses w + 1\<rparr>"
  from wrapper_miss_value[OF assms(1-4)]
  have 1: "wrapper M w a = Some (Inr v, ?w1)" .
  obtain c3 where g: "cache_getitem M (cache ?w1) (key ?w1 a) = (None, c3)"
    using assms(5) by (cases "cache_getitem M c1 (key w a)") auto
  obtain ok c4 where st: "cache_setitem M c3 (key ?w1 a) v = (ok, c4)"
    by (cases "cache_setitem M c3 (key ?w1 a) v")
  have "wrapper M ?w1 a = Some (Inr v, ?w1\<lparr>cache := c4, misses := misses ?w1 + 1\<rparr>)"
    by (rule wrapper_miss_value[OF _ g _ st]) (use assms in simp_all)
  with 1 show ?thesis by simp
qed

theorem value_too_large_swallowed_witness:
  "wrapper ttl_methods tiny 3 =
     Some (Inr 9, tiny\<lparr>cache := CacheObj ((TTLCache_new (PyInt 0) 5 ticking)\<lparr>ttl_reads := 1\<rparr>),
                       misses := 1\<rparr>) \<and>
   cache_setitem ttl_methods (CacheObj ((TTLCache_new (PyInt 0) 5 ticking)\<lparr>ttl_reads := 1\<rparr>)) (3::int) (9::int) =
     (False, CacheObj ((TTLCache_new (PyInt 0) 5 ticking)\<lparr>ttl_reads := 1\<rparr>))"
proof -
  let ?c1 = "CacheObj ((TTLCache_new (PyInt 0) 5 ticking)\<lparr>ttl_reads := 1\<rparr>)
    :: (int, int, (int, int) ttl_state) cache_obj"
  have 1: "key tiny 3 \<notin> pending tiny" by (simp add: tiny_def py_cache_def)
  have 2: "cache_getitem ttl_methods (cache tiny) (key tiny 3) = (None, ?c1)"
    by (simp add: tiny_def py_cache_def plain_keys_def ttl_methods_def ttl_get_def TTLCache_new_def)
  have 3: "func tiny 3 = Inr 9" by (simp add: tiny_def py_cache_def square_def)
  have 4: "cache_setitem ttl_methods ?c1 (key tiny 3) 9 = (False, ?c1)"
    by (simp add: tiny_def py_cache_def plain_keys_def ttl_methods_def ttl_put_def TTLCache_new_def)
  have 5: "fst (cache_getitem ttl_methods ?c1 (key tiny 3)) = None"
    by (simp add: tiny_def py_cache_def plain_keys_def ttl_methods_def ttl_get_def TTLCache_new_def)
  have m: "misses tiny = 0" "key tiny 3 = 3" by (simp_all add: tiny_def py_cache_def plain_keys_def)
  from value_too_large_swallowed[OF 1 2 3 4 5] 4 m show ?thesis by simp
qed

subsection \<open>Reachable states\<close>

lemma run_consistent:
  "run M s es = Some s' \<Longrightarrow> consistent s \<Longrightarrow> consistent s'"
proof (induction es arbitrary: s)
  case Nil
  then show ?case by simp
next
  case (Cons ev es)
  show ?case
  proof (cases ev)
    case (Step i)
    with Cons.prems obtain s1 where 1: "step M s i = Some s1" and 2: "run M s1 es = Some s'"
      by (auto split: option.splits)
    from Cons.IH[OF 2 step_consistent[OF Cons.prems(2) 1]] show ?thesis .
  next
    case ClearCache
    with Cons.prems have 1: "run M (s\<lparr>shared := cache_clear M (shared s)\<rparr>) es = Some s'" by simp
    from Cons.prems(2) have "consistent (s\<lparr>shared := cache_clear M (shared s)\<rparr>)"
      by (simp add: consistent_def cache_clear_def)
    from Cons.IH[OF 1 this] show ?thesis .
  qed
qed

lemma holders_calling: "holders k (map Calling as) = 0"
  by (induction as) (simp_all add: holders_def)

lemma calls_consistent: "pending w = {} \<Longrightarrow> consistent (calls w as)"
  by (simp add: consistent_def calls_def holders_calling)

lemma reachable_consistent:
  "pending w = {} \<Longrightarrow> run M (calls w as) es = Some s \<Longrightarrow> consistent s"
  using run_consistent calls_consistent by blast

lemma consistent_holders: "consistent s \<Longrightarrow> holders k (threads s) \<le> 1"
  by (simp add: consistent_def)

lemma consistent_owner:
  "consistent s \<Longrightarrow> i < length (threads s) \<Longrightarrow> in_flight k (threads s ! i) \<Longrightarrow>
     k \<in> pending (shared s)"
  using holders_ge[of i "threads s" k] by (auto simp: consistent_def split: if_splits)

lemma step_waiting: "threads s ! i = Waiting a \<Longrightarrow> step M s i = None"
  by (simp add: step_def)

lemma step_blocked:
  "i < length (threads s) \<Longrightarrow> threads s ! i = Calling a \<Longrightarrow>
     key (shared s) a \<in> pending (shared s) \<Longrightarrow>
     step M s i = Some (s\<lparr>threads := (threads s)[i := Waiting a]\<rparr>)"
  by (simp add: step_def)

lemma step_finishing:
  assumes "consistent s" "i < length (threads s)" "threads s ! i = Finishing k r"
  shows "step M s i = Some (s\<lparr>shared := (shared s)\<lparr>pending := pending (shared s) - {k}\<rparr>,
        threads := map wake ((threads s)[i := Done r])\<rparr>)"
  using assms consistent_owner[OF assms(1,2), of k] by (simp add: step_def finish_def)

lemma step_computing:
  "i < length (threads s) \<Longrightarrow> threads s ! i = Computing a k \<Longrightarrow>
     step M s i = Some (s\<lparr>threads := (threads s)[i :=
         (case func (shared s) a of Inr v \<Rightarrow> Storing k v | Inl e \<Rightarrow> Finishing k (Inl (Raised e)))],
       executed := a # executed s\<rparr>)"
  by (simp add: step_def split: sum.splits)

lemma step_storing:
  "i < length (threads s) \<Longrightarrow> threads s ! i = Storing k v \<Longrightarrow>
     step M s i = Some (s\<lparr>shared := store M k v (shared s),
        threads := (threads s)[i := Finishing k (Inr v)]\<rparr>)"
  by (simp add: step_def)

lemma step_enabled:
  assumes "i < length (threads s)" "\<not> is_done (threads s ! i)" "\<not> is_waiting (threads s ! i)"
  shows "\<exists>s'. step M s i = Some s'"
proof (cases "threads s ! i")
  case (Calling a)
  with assms(1) show ?thesis
    by (cases "enter M (key (shared s) a) (shared s)")
      (auto simp: step_def Let_def split: option.splits)
next
  case (Computing a k)
  with assms(1) show ?thesis by (simp add: step_computing)
next
  case (Storing k v)
  with assms(1) show ?thesis by (simp add: step_storing)
next
  case (Finishing k r)
  with assms(1) show ?thesis by (simp add: step_def split: sum.splits)
qed (use assms in simp_all)

lemma deadlock_free:
  assumes c: "consistent s" and nd: "\<exists>i<length (threads s). \<not> is_done (threads s ! i)"
  shows "\<exists>i s'. step M s i = Some s'"
proof (cases "\<exists>i<length (threads s). \<not> is_done (threads s ! i) \<and> \<not> is_waiting (threads s ! i)")
  case True
  then show ?thesis using step_enabled by blast
next
  case False
  from nd obtain i where i: "i < length (threads s)" "\<not> is_done (threads s ! i)" by blast
  with False have "is_waiting (threads s ! i)" by blast
  then obtain a where w: "threads s ! i = Waiting a" by (cases "threads s ! i") simp_all
  with c i have "key (shared s) a \<in> pending (shared s)" by (simp add: consistent_def)
  with c have "1 \<le> holders (key (shared s) a) (threads s)" by (simp add: consistent_def)
  from holders_ex[OF this] obtain j where j: "j < length (threads s)"
    "in_flight (key (shared s) a) (threads s ! j)" by blast
  then have "\<not> is_done (threads s ! j) \<and> \<not> is_waiting (threads s ! j)"
    by (cases "threads s ! j") simp_all
  with j False show ?thesis by blast
qed

subsection \<open>Calls with one key\<close>

lemma step_threads_length: "step M s i = Some s' \<Longrightarrow> length (threads s') = length (threads s)"
proof -
  assume st: "step M s i = Some s'"
  note i = step_length[OF st]
  show ?thesis
  proof (cases "threads s ! i")
    case (Calling a)
    with st i show ?thesis
      by (cases "enter M (key (shared s) a) (shared s)")
        (auto simp: step_def Let_def split: if_splits option.splits)
  next
    case (Computing a k)
    with st i show ?thesis by (auto simp: step_computing)
  next
    case (Storing k v)
    with st i show ?thesis by (auto simp: step_storing)
  next
    case (Finishing k r)
    with st i show ?thesis by (cases "k \<in> pending (shared s)") (auto simp: step_def finish_def)
  qed (use st i in \<open>simp_all add: step_def\<close>)
qed

lemma same_key_thread_wake:
  "same_key_thread k absent cached s (wake t) = same_key_thread k absent cached s t"
  by (cases t) (simp_all add: same_key_thread_def)

lemma same_key_in_flight:
  "same_key_thread k absent cached s t \<Longrightarrow> in_flight k' t \<Longrightarrow> k' = k"
  by (cases t) (auto simp: same_key_thread_def)

text \<open>A thread that is not in flight keeps its property when the shared state changes.\<close>

lemma idle_transfer:
  assumes "same_key_thread k absent cached s t" and "\<not> in_flight k t"
    and "func (shared s') = func (shared s)" and "key (shared s') = key (shared s)"
    and "is_done t \<longrightarrow> executed s' = executed s"
  shows "same_key_thread k absent cached s' t"
  using assms by (cases t) (auto simp: same_key_thread_def)

lemma others_idle:
  assumes "consistent s" "i < length (threads s)" "in_flight k (threads s ! i)"
    "j < length (threads s)" "j \<noteq> i"
  shows "\<not> in_flight k (threads s ! j)"
  using holders_unique[OF consistent_holders[OF assms(1)] assms(2) assms(4) assms(3)] assms(5)
  by blast

lemma nobody_in_flight:
  assumes "consistent s" "k \<notin> pending (shared s)" "j < length (threads s)"
  shows "\<not> in_flight k (threads s ! j)"
  using consistent_owner[OF assms(1) assms(3)] assms(2) by blast

lemma same_key_step:
  fixes s :: "('a, 'k, 'v, 'e, 'c) system"
  assumes inv: "same_key_inv k absent cached s" and ret: "retains M k absent cached"
    and st: "step M s i = Some s'"
  shows "same_key_inv k absent cached s'"
proof -
  note i = step_length[OF st]
  note fx = step_fixed[OF st]
  from inv have c: "consistent s"
    and th: "\<And>j. j < length (threads s) \<Longrightarrow> same_key_thread k absent cached s (threads s ! j)"
    and g1: "executed s = [] \<Longrightarrow> k \<notin> pending (shared s) \<Longrightarrow> absent (cache (shared s))"
    and g2: "\<And>a v. executed s = [a] \<Longrightarrow> func (shared s) a = Inr v \<Longrightarrow>
               k \<notin> pending (shared s) \<Longrightarrow> cached (cache (shared s)) v"
    and g3: "executed s = [] \<or> (\<exists>a v. executed s = [a] \<and> func (shared s) a = Inr v)"
    by (auto simp: same_key_inv_def)
  from ret have r0: "\<And>c. absent c \<Longrightarrow> fst (cache_getitem M c k) = None"
    and r0': "\<And>c. absent c \<Longrightarrow> absent (snd (cache_getitem M c k))"
    and r1: "\<And>c v. absent c \<Longrightarrow> cached (snd (cache_setitem M c k v)) v"
    and r2: "\<And>c v. cached c v \<Longrightarrow> fst (cache_getitem M c k) = Some v"
    and r3: "\<And>c v. cached c v \<Longrightarrow> cached (snd (cache_getitem M c k)) v"
    by (auto simp: retains_def)
  note c' = step_consistent[OF c st]
  note ti = th[OF i]
  show ?thesis
  proof (cases "threads s ! i")
    case (Calling a)
    from ti Calling have ka: "key (shared s) a = k" and fa: "\<exists>v. func (shared s) a = Inr v"
      by (auto simp: same_key_thread_def)
    show ?thesis
    proof (cases "k \<in> pending (shared s)")
      case True
      with st i Calling ka have s': "s' = s\<lparr>threads := (threads s)[i := Waiting a]\<rparr>"
        by (simp add: step_def)
      have "same_key_thread k absent cached s' (threads s' ! j)" if "j < length (threads s')" for j
        using that th[of j] ka fa unfolding s'
        by (cases "j = i") (auto simp: same_key_thread_def split: thread.splits)
      with c' g1 g2 g3 show ?thesis unfolding same_key_inv_def by (simp add: s')
    next
      case False
      have idle: "\<not> in_flight k (threads s ! j)" if "j < length (threads s)" for j
        using nobody_in_flight[OF c False that] .
      obtain x c1 where g: "cache_getitem M (cache (shared s)) k = (x, c1)"
        by (cases "cache_getitem M (cache (shared s)) k")
      show ?thesis
      proof (cases "executed s = []")
        case True
        from g1[OF True False] have ab: "absent (cache (shared s))" .
        from r0[OF ab] r0'[OF ab] g have x: "x = None" and ab1: "absent c1" by simp_all
        with st i Calling ka False g
        have s': "s' = s\<lparr>shared := (shared s)\<lparr>cache := c1, misses := misses (shared s) + 1,
              pending := insert k (pending (shared s))\<rparr>,
            threads := (threads s)[i := Computing a k]\<rparr>"
          by (simp add: step_def enter_def)
        have "same_key_thread k absent cached s' (threads s' ! j)" if j: "j < length (threads s')" for j
        proof (cases "j = i")
          case True
          with j fa ab1 \<open>executed s = []\<close> show ?thesis by (simp add: s' same_key_thread_def)
        next
          case False
          with j have "threads s' ! j = threads s ! j" and jl: "j < length (threads s)"
            by (simp_all add: s')
          moreover have "same_key_thread k absent cached s' (threads s ! j)"
            by (rule idle_transfer[OF th[OF jl] idle[OF jl]]) (simp_all add: s')
          ultimately show ?thesis by simp
        qed
        with c' True show ?thesis unfolding same_key_inv_def by (simp add: s')
      next
        case ne: False
        with g3 obtain a0 v where e: "executed s = [a0]" "func (shared s) a0 = Inr v" by blast
        from g2[OF e False] have cv: "cached (cache (shared s)) v" .
        from r2[OF cv] r3[OF cv] g have x: "x = Some v" and cv1: "cached c1 v" by simp_all
        with st i Calling ka False g
        have s': "s' = s\<lparr>shared := (shared s)\<lparr>cache := c1, hits := hits (shared s) + 1\<rparr>,
            threads := (threads s)[i := Done (Inr v)]\<rparr>"
          by (simp add: step_def enter_def)
        have "same_key_thread k absent cached s' (threads s' ! j)" if j: "j < length (threads s')" for j
        proof (cases "j = i")
          case True
          with j e show ?thesis by (simp add: s' same_key_thread_def)
        next
          case False
          with j have "threads s' ! j = threads s ! j" and jl: "j < length (threads s)"
            by (simp_all add: s')
          moreover have "same_key_thread k absent cached s' (threads s ! j)"
            by (rule idle_transfer[OF th[OF jl] idle[OF jl]]) (simp_all add: s')
          ultimately show ?thesis by simp
        qed
        with c' e cv1 show ?thesis unfolding same_key_inv_def by (simp add: s')
      qed
    qed
  next
    case (Waiting a)
    with st i show ?thesis by (simp add: step_def)
  next
    case (Computing a k')
    from ti Computing have k': "k' = k" and ex: "executed s = []"
      and ab: "absent (cache (shared s))" and "\<exists>v. func (shared s) a = Inr v"
      by (auto simp: same_key_thread_def)
    then obtain v where fa: "func (shared s) a = Inr v" by blast
    from st i Computing fa k'
    have s': "s' = s\<lparr>threads := (threads s)[i := Storing k v], executed := [a]\<rparr>"
      by (simp add: step_computing ex)
    from consistent_owner[OF c i, of k] Computing k' have kp: "k \<in> pending (shared s)" by simp
    have "same_key_thread k absent cached s' (threads s' ! j)" if j: "j < length (threads s')" for j
    proof (cases "j = i")
      case True
      with j fa ab show ?thesis by (simp add: s' same_key_thread_def)
    next
      case False
      with j have eq: "threads s' ! j = threads s ! j" and jl: "j < length (threads s)"
        by (simp_all add: s')
      have nf: "\<not> in_flight k (threads s ! j)"
        by (rule others_idle[OF c i _ jl False]) (simp add: Computing k')
      have nd: "\<not> is_done (threads s ! j)"
        using th[OF jl] ex by (cases "threads s ! j") (auto simp: same_key_thread_def)
      have "same_key_thread k absent cached s' (threads s ! j)"
        by (rule idle_transfer[OF th[OF jl] nf]) (simp_all add: s' nd)
      with eq show ?thesis by simp
    qed
    with c' kp fa show ?thesis unfolding same_key_inv_def by (simp add: s')
  next
    case (Storing k' v)
    from ti Storing obtain a0 where k': "k' = k" and e: "executed s = [a0]"
      "func (shared s) a0 = Inr v" and ab: "absent (cache (shared s))"
      by (auto simp: same_key_thread_def)
    from st i Storing k'
    have s': "s' = s\<lparr>shared := store M k v (shared s),
        threads := (threads s)[i := Finishing k (Inr v)]\<rparr>"
      by (simp add: step_storing)
    from consistent_owner[OF c i, of k] Storing k' have kp: "k \<in> pending (shared s)" by simp
    have cv: "cached (cache (store M k v (shared s))) v"
      using r1[OF ab, of v] by (auto simp: store_def split: prod.splits)
    have "same_key_thread k absent cached s' (threads s' ! j)" if j: "j < length (threads s')" for j
    proof (cases "j = i")
      case True
      with j e cv show ?thesis by (simp add: s' same_key_thread_def store_fields)
    next
      case False
      with j have eq: "threads s' ! j = threads s ! j" and jl: "j < length (threads s)"
        by (simp_all add: s')
      have nf: "\<not> in_flight k (threads s ! j)"
        by (rule others_idle[OF c i _ jl False]) (simp add: Storing k')
      have "same_key_thread k absent cached s' (threads s ! j)"
        by (rule idle_transfer[OF th[OF jl] nf]) (simp_all add: s' store_fields)
      with eq show ?thesis by simp
    qed
    with c' kp e show ?thesis unfolding same_key_inv_def by (simp add: s' store_fields)
  next
    case (Finishing k' r)
    from ti Finishing obtain a0 v where k': "k' = k" and e: "executed s = [a0]"
      "func (shared s) a0 = Inr v" and r: "r = Inr v" and cv: "cached (cache (shared s)) v"
      by (auto simp: same_key_thread_def)
    from step_finishing[OF c i Finishing] st k'
    have s': "s' = s\<lparr>shared := (shared s)\<lparr>pending := pending (shared s) - {k}\<rparr>,
        threads := map wake ((threads s)[i := Done r])\<rparr>"
      by simp
    have "same_key_thread k absent cached s' (threads s' ! j)" if j: "j < length (threads s')" for j
    proof (cases "j = i")
      case True
      with j e r show ?thesis by (simp add: s' same_key_thread_def)
    next
      case False
      with j have eq: "threads s' ! j = wake (threads s ! j)" and jl: "j < length (threads s)"
        by (simp_all add: s')
      have nf: "\<not> in_flight k (threads s ! j)"
        by (rule others_idle[OF c i _ jl False]) (simp add: Finishing k')
      have "same_key_thread k absent cached s' (threads s ! j)"
        by (rule idle_transfer[OF th[OF jl] nf]) (simp_all add: s')
      with eq show ?thesis by (simp add: same_key_thread_wake)
    qed
    with c' e cv show ?thesis unfolding same_key_inv_def by (simp add: s')
  next
    case (Done r)
    with st i show ?thesis by (simp add: step_def)
  qed
qed

subsection \<open>A bound on the steps\<close>

lemma weight_update:
  "i < length ts \<Longrightarrow>
     sum_list (map weight (ts[i := t])) + weight (ts ! i) = sum_list (map weight ts) + weight t"
proof (induction ts arbitrary: i)
  case Nil
  then show ?case by simp
next
  case (Cons x xs)
  show ?case
  proof (cases i)
    case 0
    then show ?thesis by simp
  next
    case (Suc j)
    with Cons.prems have "j < length xs" by simp
    from Cons.IH[OF this] Suc show ?thesis by simp
  qed
qed

lemma unfinished_update:
  "i < length ts \<Longrightarrow>
     unfinished (ts[i := t]) + (if is_done (ts ! i) then 0 else 1) =
     unfinished ts + (if is_done t then 0 else 1)"
proof (induction ts arbitrary: i)
  case Nil
  then show ?case by simp
next
  case (Cons x xs)
  show ?case
  proof (cases i)
    case 0
    then show ?thesis by (simp add: unfinished_def)
  next
    case (Suc j)
    with Cons.prems have "j < length xs" by simp
    from Cons.IH[OF this] Suc show ?thesis
      by (auto simp: unfinished_def split: if_splits)
  qed
qed

lemma weight_wake: "weight (wake t) \<le> weight t + (if is_done t then 0 else 1)"
  by (cases t) simp_all

lemma weight_wake_sum:
  "sum_list (map weight (map wake ts)) \<le> sum_list (map weight ts) + unfinished ts"
proof (induction ts)
  case Nil
  then show ?case by simp
next
  case (Cons t ts)
  from weight_wake[of t] Cons show ?case
    by (cases "is_done t") (simp_all add: unfinished_def)
qed

lemma is_done_wake: "is_done (wake t) = is_done t"
  by (cases t) simp_all

lemma unfinished_wake: "unfinished (map wake ts) = unfinished ts"
  by (induction ts) (simp_all add: unfinished_def is_done_wake)

lemma unfinished_le: "unfinished ts \<le> length ts"
  by (simp add: unfinished_def)

text \<open>A step that moves thread \<open>i\<close> to a lighter place and touches no other thread.\<close>

lemma remaining_update:
  assumes "i < length ts" "weight t < weight (ts ! i)"
  shows "remaining (ts[i := t]) < remaining ts"
proof -
  from assms(2) have nd: "\<not> is_done (ts ! i)" by (cases "ts ! i") simp_all
  from unfinished_update[OF assms(1), of t] nd
  have "unfinished (ts[i := t]) \<le> unfinished ts" by (simp split: if_splits)
  then have a: "unfinished (ts[i := t]) * length ts \<le> unfinished ts * length ts"
    by (rule mult_le_mono1)
  from weight_update[OF assms(1), of t] assms(2)
  have b: "sum_list (map weight (ts[i := t])) < sum_list (map weight ts)" by simp
  have "remaining (ts[i := t]) =
      unfinished (ts[i := t]) * length ts + sum_list (map weight (ts[i := t]))"
    by (simp add: remaining_def)
  with a b show ?thesis unfolding remaining_def by linarith
qed

text \<open>The step that finishes thread \<open>i\<close> and wakes the others.\<close>

lemma remaining_finish:
  assumes i: "i < length ts" and f: "ts ! i = Finishing k r"
  shows "remaining (map wake (ts[i := Done r])) < remaining ts"
proof -
  let ?ts = "ts[i := Done r]"
  from unfinished_update[OF i, of "Done r"] f have u: "unfinished ?ts + 1 = unfinished ts"
    by simp
  from weight_update[OF i, of "Done r"] f
  have w: "sum_list (map weight ?ts) + 1 = sum_list (map weight ts)" by simp
  have "sum_list (map weight (map wake ?ts)) \<le> sum_list (map weight ?ts) + unfinished ?ts"
    by (rule weight_wake_sum)
  moreover from u unfinished_le[of ts] have "unfinished ?ts < length ts" by simp
  moreover have "unfinished ts * length ts = unfinished ?ts * length ts + length ts"
    using u by (metis add.commute mult_Suc Suc_eq_plus1)
  ultimately show ?thesis using w by (simp add: remaining_def unfinished_wake)
qed

lemma step_remaining:
  assumes st: "step M s i = Some s'"
  shows "remaining (threads s') < remaining (threads s)"
proof -
  note i = step_length[OF st]
  show ?thesis
  proof (cases "threads s ! i")
    case (Calling a)
    obtain x w1 where e: "enter M (key (shared s) a) (shared s) = (x, w1)"
      by (cases "enter M (key (shared s) a) (shared s)")
    from st i Calling e obtain t where "threads s' = (threads s)[i := t]" "weight t < 5"
      by (cases x) (auto simp: step_def Let_def split: if_splits)
    with remaining_update[OF i, of t] Calling show ?thesis by simp
  next
    case (Waiting a)
    with st i show ?thesis by (simp add: step_def)
  next
    case (Computing a k)
    with st i obtain t where "threads s' = (threads s)[i := t]" "weight t < 3"
      by (cases "func (shared s) a") (auto simp: step_computing)
    with remaining_update[OF i, of t] Computing show ?thesis by simp
  next
    case (Storing k v)
    with st i have "threads s' = (threads s)[i := Finishing k (Inr v)]"
      by (auto simp: step_storing)
    with remaining_update[OF i, of "Finishing k (Inr v)"] Storing show ?thesis by simp
  next
    case (Finishing k r)
    show ?thesis
    proof (cases "k \<in> pending (shared s)")
      case True
      with st i Finishing have "threads s' = map wake ((threads s)[i := Done r])"
        by (auto simp: step_def finish_def)
      with remaining_finish[OF i Finishing] show ?thesis by simp
    next
      case False
      with st i Finishing have "threads s' = (threads s)[i := Done (Inl KeyError)]"
        by (auto simp: step_def finish_def)
      with remaining_update[OF i, of "Done (Inl KeyError)"] Finishing show ?thesis by simp
    qed
  next
    case (Done r)
    with st i show ?thesis by (simp add: step_def)
  qed
qed

lemma run_remaining:
  "run M s es = Some s' \<Longrightarrow> ClearCache \<notin> set es \<Longrightarrow>
     length es + remaining (threads s') \<le> remaining (threads s)"
proof (induction es arbitrary: s)
  case Nil
  then show ?case by simp
next
  case (Cons ev es)
  from Cons.prems(2) obtain i where ev: "ev = Step i" by (cases ev) auto
  with Cons.prems obtain s1 where 1: "step M s i = Some s1" and 2: "run M s1 es = Some s'"
    by (auto split: option.splits)
  from Cons.IH[OF 2] Cons.prems(2) step_remaining[OF 1] show ?case by simp
qed

lemma weight_calling: "sum_list (map weight (map Calling as)) = 5 * length as"
  by (induction as) simp_all

lemma unfinished_calling: "unfinished (map Calling as) = length as"
  by (induction as) (simp_all add: unfinished_def)

lemma remaining_calls: "remaining (threads (calls w as)) = length as * length as + 5 * length as"
  by (simp add: remaining_def calls_def weight_calling unfinished_calling del: map_map)

subsection \<open>One thread alone\<close>

text \<open>A call by one caller is a run of one thread: the two descriptions of \<^verbatim>\<open>wrapper\<close> agree.\<close>

lemma wrapper_single_thread:
  assumes "wrapper M w a = Some (r, w')"
  shows "\<exists>es. run M (calls w [a]) es =
    Some \<lparr>shared = w', threads = [Done r], executed = (if hits w' = hits w then [a] else [])\<rparr>"
proof -
  from assms have p: "key w a \<notin> pending w" by (simp add: wrapper_pending)
  obtain x c1 where g: "cache_getitem M (cache w) (key w a) = (x, c1)"
    by (cases "cache_getitem M (cache w) (key w a)")
  show ?thesis
  proof (cases x)
    case (Some v)
    with wrapper_hit[OF p, of M v c1] g assms
    have "run M (calls w [a]) [Step 0] =
      Some \<lparr>shared = w', threads = [Done r], executed = (if hits w' = hits w then [a] else [])\<rparr>"
      using p by (auto simp: step_def calls_def enter_def Let_def)
    then show ?thesis by blast
  next
    case None
    show ?thesis
    proof (cases "func w a")
      case (Inl e)
      with wrapper_miss_raise[OF p, of M c1 e] g None assms
      have "run M (calls w [a]) [Step 0, Step 0, Step 0] =
        Some \<lparr>shared = w', threads = [Done r], executed = (if hits w' = hits w then [a] else [])\<rparr>"
        using p by (auto simp: step_def calls_def enter_def finish_def Let_def)
      then show ?thesis by blast
    next
      case (Inr v)
      obtain ok c2 where st: "cache_setitem M c1 (key w a) v = (ok, c2)"
        by (cases "cache_setitem M c1 (key w a) v")
      with wrapper_miss_value[OF p _ Inr st] g None assms Inr
      have "run M (calls w [a]) [Step 0, Step 0, Step 0, Step 0] =
        Some \<lparr>shared = w', threads = [Done r], executed = (if hits w' = hits w then [a] else [])\<rparr>"
        using p by (auto simp: step_def calls_def enter_def store_def finish_def Let_def)
      then show ?thesis by blast
    qed
  qed
qed

subsection \<open>One computation per key\<close>

lemma run_threads_length:
  "run M s es = Some s' \<Longrightarrow> length (threads s') = length (threads s)"
proof (induction es arbitrary: s)
  case Nil
  then show ?case by simp
next
  case (Cons ev es)
  show ?case
  proof (cases ev)
    case (Step i)
    with Cons.prems obtain s1 where 1: "step M s i = Some s1" and 2: "run M s1 es = Some s'"
      by (auto split: option.splits)
    from Cons.IH[OF 2] step_threads_length[OF 1] show ?thesis by simp
  next
    case ClearCache
    with Cons.prems have "run M (s\<lparr>shared := cache_clear M (shared s)\<rparr>) es = Some s'" by simp
    from Cons.IH[OF this] show ?thesis by simp
  qed
qed

lemma same_key_run:
  "run M s es = Some s' \<Longrightarrow> ClearCache \<notin> set es \<Longrightarrow> retains M k absent cached \<Longrightarrow>
     same_key_inv k absent cached s \<Longrightarrow> same_key_inv k absent cached s'"
proof (induction es arbitrary: s)
  case Nil
  then show ?case by simp
next
  case (Cons ev es)
  from Cons.prems(2) obtain i where ev: "ev = Step i" by (cases ev) auto
  with Cons.prems obtain s1 where 1: "step M s i = Some s1" and 2: "run M s1 es = Some s'"
    by (auto split: option.splits)
  from same_key_step[OF Cons.prems(4) Cons.prems(3) 1]
  have "same_key_inv k absent cached s1" .
  from Cons.IH[OF 2 _ Cons.prems(3) this] Cons.prems(2) show ?case by simp
qed

lemma same_key_calls:
  assumes "pending w = {}" and "absent (cache w)"
    and "\<forall>a\<in>set as. key w a = k \<and> (\<exists>v. func w a = Inr v)"
  shows "same_key_inv k absent cached (calls w as)"
proof -
  have "same_key_thread k absent cached (calls w as) (threads (calls w as) ! i)"
    if "i < length (threads (calls w as))" for i
    using that assms(3) by (simp add: calls_def same_key_thread_def)
  with calls_consistent[OF assms(1), of as] assms(1,2) show ?thesis
    unfolding same_key_inv_def by (simp add: calls_def)
qed

lemma same_key_final:
  assumes inv: "same_key_inv k absent cached s" and ne: "threads s \<noteq> []"
    and d: "\<forall>t\<in>set (threads s). is_done t"
  shows "\<exists>a v. executed s = [a] \<and> func (shared s) a = Inr v \<and>
           (\<forall>t\<in>set (threads s). t = Done (Inr v))"
proof -
  from inv have th: "\<And>j. j < length (threads s) \<Longrightarrow>
      same_key_thread k absent cached s (threads s ! j)"
    by (simp add: same_key_inv_def)
  from ne have 0: "0 < length (threads s)" by simp
  with d have "is_done (threads s ! 0)" by simp
  then obtain r where r: "threads s ! 0 = Done r" by (cases "threads s ! 0") simp_all
  with th[OF 0] obtain a v where e: "executed s = [a]" "func (shared s) a = Inr v"
    by (auto simp: same_key_thread_def)
  have "t = Done (Inr v)" if t: "t \<in> set (threads s)" for t
  proof -
    from t obtain j where j: "j < length (threads s)" "threads s ! j = t"
      by (auto simp: in_set_conv_nth)
    from d t obtain r' where "t = Done r'" by (cases t) auto
    with th[OF j(1)] j(2) e show ?thesis by (auto simp: same_key_thread_def)
  qed
  with e show ?thesis by blast
qed

lemma step_proceeds:
  assumes "i < length (threads s)" "threads s ! i = Calling a"
    "key (shared s) a \<notin> pending (shared s)"
  shows "\<exists>s'. step M s i = Some s' \<and>
     (threads s' ! i = Computing a (key (shared s) a) \<or> (\<exists>v. threads s' ! i = Done (Inr v)))"
proof -
  obtain x w1 where e: "enter M (key (shared s) a) (shared s) = (x, w1)"
    by (cases "enter M (key (shared s) a) (shared s)")
  with assms show ?thesis by (cases x) (simp_all add: step_def)
qed

lemma two_computing:
  assumes "pending w = {}" "key w a1 \<noteq> key w a2"
    "cache_getitem M (cache w) (key w a1) = (None, c1)"
    "cache_getitem M c1 (key w a2) = (None, c2)"
  shows "run M (calls w [a1, a2]) [Step 0, Step 1] =
    Some \<lparr>shared = w\<lparr>cache := c2, misses := misses w + 2, pending := {key w a1, key w a2}\<rparr>,
          threads = [Computing a1 (key w a1), Computing a2 (key w a2)], executed = []\<rparr>"
  using assms by (simp add: step_def calls_def enter_def Let_def insert_commute)

text \<open>
  C1. Threads call a wrapper with nothing pending, and anyone may clear the cache
  in between. In every state they reach: for every key at most one thread is in
  flight; a sleeping thread's key is pending and the thread cannot run; a thread at
  the start of a call whose key is pending goes to sleep, changing nothing else, and
  one whose key is not pending goes on to compute or returns a cached value; while
  a thread is unfinished some thread can run; and, the cache not being cleared, the
  number of steps taken is bounded, so every run ends with all calls finished. If
  all calls have the same key, absent at first from a cache that keeps it, and
  \<^verbatim>\<open>func\<close> returns on their arguments, then once all calls have finished the body
  of \<^verbatim>\<open>func\<close> has run exactly once and every call has returned the value of that run.
  Two calls with different keys, both absent, are both running \<^verbatim>\<open>func\<close> after one step
  each.
\<close>

theorem stampede_prevention:
  assumes "pending w = {}" and "run M (calls w as) es = Some s"
  shows
    "(\<forall>k. holders k (threads s) \<le> 1) \<and>
     (\<forall>i<length (threads s). \<forall>a. threads s ! i = Waiting a \<longrightarrow>
        key (shared s) a \<in> pending (shared s) \<and> step M s i = None) \<and>
     (\<forall>i<length (threads s). \<forall>a.
        threads s ! i = Calling a \<and> key (shared s) a \<in> pending (shared s) \<longrightarrow>
        step M s i = Some (s\<lparr>threads := (threads s)[i := Waiting a]\<rparr>)) \<and>
     (\<forall>i<length (threads s). \<forall>a.
        threads s ! i = Calling a \<and> key (shared s) a \<notin> pending (shared s) \<longrightarrow>
        (\<exists>s'. step M s i = Some s' \<and>
           (threads s' ! i = Computing a (key (shared s) a) \<or>
            (\<exists>v. threads s' ! i = Done (Inr v))))) \<and>
     ((\<exists>i<length (threads s). \<not> is_done (threads s ! i)) \<longrightarrow> (\<exists>i s'. step M s i = Some s')) \<and>
     (ClearCache \<notin> set es \<longrightarrow> length es \<le> length as * length as + 5 * length as) \<and>
     (\<forall>k absent cached.
        retains M k absent cached \<and> absent (cache w) \<and>
        (\<forall>a\<in>set as. key w a = k \<and> (\<exists>v. func w a = Inr v)) \<and>
        ClearCache \<notin> set es \<and> as \<noteq> [] \<and> (\<forall>t\<in>set (threads s). is_done t) \<longrightarrow>
        (\<exists>a v. executed s = [a] \<and> func w a = Inr v \<and>
           (\<forall>t\<in>set (threads s). t = Done (Inr v)))) \<and>
     (\<forall>a1 a2 c1 c2.
        key w a1 \<noteq> key w a2 \<and> cache_getitem M (cache w) (key w a1) = (None, c1) \<and>
        cache_getitem M c1 (key w a2) = (None, c2) \<longrightarrow>
        run M (calls w [a1, a2]) [Step 0, Step 1] =
          Some \<lparr>shared = w\<lparr>cache := c2, misses := misses w + 2,
                   pending := {key w a1, key w a2}\<rparr>,
                threads = [Computing a1 (key w a1), Computing a2 (key w a2)],
                executed = []\<rparr>)"
proof -
  note c = reachable_consistent[OF assms]
  have 1: "\<forall>k. holders k (threads s) \<le> 1"
    using consistent_holders[OF c] by blast
  have 2: "\<forall>i<length (threads s). \<forall>a. threads s ! i = Waiting a \<longrightarrow>
        key (shared s) a \<in> pending (shared s) \<and> step M s i = None"
    using c by (simp add: consistent_def step_waiting)
  have 3: "\<forall>i<length (threads s). \<forall>a.
        threads s ! i = Calling a \<and> key (shared s) a \<in> pending (shared s) \<longrightarrow>
        step M s i = Some (s\<lparr>threads := (threads s)[i := Waiting a]\<rparr>)"
    by (simp add: step_blocked)
  have 4: "\<forall>i<length (threads s). \<forall>a.
        threads s ! i = Calling a \<and> key (shared s) a \<notin> pending (shared s) \<longrightarrow>
        (\<exists>s'. step M s i = Some s' \<and>
           (threads s' ! i = Computing a (key (shared s) a) \<or>
            (\<exists>v. threads s' ! i = Done (Inr v))))"
  proof (intro allI impI)
    fix i a
    assume "i < length (threads s)"
      and "threads s ! i = Calling a \<and> key (shared s) a \<notin> pending (shared s)"
    then show "\<exists>s'. step M s i = Some s' \<and>
           (threads s' ! i = Computing a (key (shared s) a) \<or>
            (\<exists>v. threads s' ! i = Done (Inr v)))"
      using step_proceeds[of i s a M] by simp
  qed
  have 5: "(\<exists>i<length (threads s). \<not> is_done (threads s ! i)) \<longrightarrow> (\<exists>i s'. step M s i = Some s')"
    using deadlock_free[OF c] by blast
  have 6: "ClearCache \<notin> set es \<longrightarrow> length es \<le> length as * length as + 5 * length as"
    using run_remaining[OF assms(2)] remaining_calls[of w as] by auto
  have 7: "\<exists>a v. executed s = [a] \<and> func w a = Inr v \<and> (\<forall>t\<in>set (threads s). t = Done (Inr v))"
    if h: "retains M k absent cached" "absent (cache w)"
      "\<forall>a\<in>set as. key w a = k \<and> (\<exists>v. func w a = Inr v)"
      "ClearCache \<notin> set es" "as \<noteq> []" "\<forall>t\<in>set (threads s). is_done t"
    for k absent cached
  proof -
    have "same_key_inv k absent cached (calls w as)"
      using assms(1) h(2) h(3) by (rule same_key_calls)
    from same_key_run[OF assms(2) h(4) h(1) this] have inv: "same_key_inv k absent cached s" .
    from run_threads_length[OF assms(2)] h(5) have "threads s \<noteq> []"
      by (auto simp: calls_def)
    from same_key_final[OF inv this h(6)] run_fixed[OF assms(2)] show ?thesis
      by (simp add: calls_def)
  qed
  have 8: "\<forall>a1 a2 c1 c2.
        key w a1 \<noteq> key w a2 \<and> cache_getitem M (cache w) (key w a1) = (None, c1) \<and>
        cache_getitem M c1 (key w a2) = (None, c2) \<longrightarrow>
        run M (calls w [a1, a2]) [Step 0, Step 1] =
          Some \<lparr>shared = w\<lparr>cache := c2, misses := misses w + 2,
                   pending := {key w a1, key w a2}\<rparr>,
                threads = [Computing a1 (key w a1), Computing a2 (key w a2)],
                executed = []\<rparr>"
  proof (intro allI impI)
    fix a1 a2 c1 c2
    assume "key w a1 \<noteq> key w a2 \<and> cache_getitem M (cache w) (key w a1) = (None, c1) \<and>
        cache_getitem M c1 (key w a2) = (None, c2)"
    then show "run M (calls w [a1, a2]) [Step 0, Step 1] =
          Some \<lparr>shared = w\<lparr>cache := c2, misses := misses w + 2,
                   pending := {key w a1, key w a2}\<rparr>,
                threads = [Computing a1 (key w a1), Computing a2 (key w a2)],
                executed = []\<rparr>"
      using two_computing[OF assms(1), of a1 a2 M c1 c2] by simp
  qed
  from 7 have g7: "\<forall>k absent cached.
        retains M k absent cached \<and> absent (cache w) \<and>
        (\<forall>a\<in>set as. key w a = k \<and> (\<exists>v. func w a = Inr v)) \<and>
        ClearCache \<notin> set es \<and> as \<noteq> [] \<and> (\<forall>t\<in>set (threads s). is_done t) \<longrightarrow>
        (\<exists>a v. executed s = [a] \<and> func w a = Inr v \<and>
           (\<forall>t\<in>set (threads s). t = Done (Inr v)))"
    by blast
  from 1 2 3 4 5 6 g7 8 show ?thesis by (intro conjI)
qed

lemma dict_retains: "retains M k (dict_absent k) (dict_cached k)"
  unfolding retains_def dict_absent_def dict_cached_def
  by (auto split: cache_obj.splits)

lemma example_same_key:
  "run ttl_methods (calls plain [3, 3]) [Step 0, Step 1, Step 0, Step 0, Step 0, Step 1] =
     Some \<lparr>shared = plain\<lparr>cache := Dict [3 \<mapsto> 9], hits := 1, misses := 1\<rparr>,
           threads = [Done (Inr 9), Done (Inr 9)], executed = [3]\<rparr>"
  by (simp add: step_def calls_def enter_def store_def finish_def plain_def py_cache_def
      plain_keys_def square_def Let_def)

theorem stampede_prevention_witness:
  "pending plain = {} \<and>
   run ttl_methods (calls plain [3, 3]) [Step 0, Step 1, Step 0, Step 0, Step 0, Step 1] =
     Some \<lparr>shared = plain\<lparr>cache := Dict [3 \<mapsto> 9], hits := 1, misses := 1\<rparr>,
           threads = [Done (Inr 9), Done (Inr 9)], executed = [3]\<rparr> \<and>
   retains ttl_methods (3::int) (dict_absent 3) (dict_cached 3) \<and>
   dict_absent (3::int) (cache plain) \<and>
   holders (3::int) [Done (Inr 9), Done (Inr (9::int)) :: (int, int, int, string) thread] \<le> 1 \<and>
   (\<exists>a v. [3] = [a] \<and> func plain a = Inr v \<and>
      list_all (\<lambda>t. t = Done (Inr v)) [Done (Inr 9), Done (Inr 9) :: (int, int, int, string) thread])"
proof -
  let ?s = "\<lparr>shared = plain\<lparr>cache := Dict [3 \<mapsto> 9], hits := 1, misses := 1\<rparr>,
           threads = [Done (Inr 9), Done (Inr 9)], executed = [3]\<rparr>
    :: (int, int, int, string, (int, int) ttl_state) system"
  have p: "pending plain = {}" by (simp add: plain_def py_cache_def)
  have ab: "dict_absent (3::int) (cache plain)"
    by (simp add: plain_def py_cache_def dict_absent_def)
  have same: "\<forall>a\<in>set [3, 3]. key plain a = 3 \<and> (\<exists>v. func plain a = Inr v)"
    by (simp add: plain_def py_cache_def plain_keys_def square_def)
  note r = example_same_key
  note th = stampede_prevention[OF p r]
  note first = th[THEN conjunct1, rule_format]
  note once = th[THEN conjunct2, THEN conjunct2, THEN conjunct2, THEN conjunct2,
      THEN conjunct2, THEN conjunct2, THEN conjunct1, rule_format]
  from first[of 3] have 1: "holders (3::int) (threads ?s) \<le> 1" .
  have 2: "\<exists>a v. executed ?s = [a] \<and> func plain a = Inr v \<and>
        (\<forall>t\<in>set (threads ?s). t = Done (Inr v))"
    by (rule once[of 3 "dict_absent 3" "dict_cached 3"])
      (use dict_retains[of ttl_methods 3] ab same in simp)
  from p r dict_retains[of ttl_methods 3] ab 1 2 show ?thesis by simp
qed

subsection \<open>Failure of the computation, and the release of the key\<close>

lemma wake_not_sleeping: "\<not> is_waiting (wake t)"
  by (cases t) simp_all

text \<open>
  C4. A call whose key is not cached and whose \<^verbatim>\<open>func\<close> raises \<open>e\<close> raises \<open>e\<close>, with the
  cache as the lookup left it and one more miss; after any call that returns or
  raises, nothing is pending. Among threads, in every reachable state: a thread whose
  \<^verbatim>\<open>func\<close> raises goes to the \<^verbatim>\<open>finally\<close> block carrying that exception, the wrapper's
  state untouched; a thread that stores goes there carrying its value whatever the
  store did, the pending set untouched; and a thread in the \<^verbatim>\<open>finally\<close> block finds
  its key pending, removes it, ends with what it carried, and leaves no thread asleep.
\<close>

theorem failure_and_release:
  assumes "pending w = {}" and "run M (calls w as) es = Some s" and "i < length (threads s)"
  shows
    "(\<forall>a c1 e. cache_getitem M (cache w) (key w a) = (None, c1) \<and> func w a = Inl e \<longrightarrow>
        wrapper M w a = Some (Inl (Raised e), w\<lparr>cache := c1, misses := misses w + 1\<rparr>)) \<and>
     (\<forall>a r w'. wrapper M w a = Some (r, w') \<longrightarrow> pending w' = {}) \<and>
     (\<forall>a k e. threads s ! i = Computing a k \<and> func (shared s) a = Inl e \<longrightarrow>
        step M s i =
          Some (s\<lparr>threads := (threads s)[i := Finishing k (Inl (Raised e))],
                  executed := a # executed s\<rparr>)) \<and>
     (\<forall>k v. threads s ! i = Storing k v \<longrightarrow>
        step M s i =
          Some (s\<lparr>shared := store M k v (shared s),
                  threads := (threads s)[i := Finishing k (Inr v)]\<rparr>) \<and>
        pending (store M k v (shared s)) = pending (shared s)) \<and>
     (\<forall>k r. threads s ! i = Finishing k r \<longrightarrow>
        k \<in> pending (shared s) \<and>
        step M s i =
          Some (s\<lparr>shared := (shared s)\<lparr>pending := pending (shared s) - {k}\<rparr>,
                  threads := map wake ((threads s)[i := Done r])\<rparr>) \<and>
        map wake ((threads s)[i := Done r]) ! i = Done r \<and>
        (\<forall>j<length (threads s). \<not> is_waiting (map wake ((threads s)[i := Done r]) ! j)))"
proof -
  note c = reachable_consistent[OF assms(1,2)]
  note i = assms(3)
  have 1: "\<forall>a c1 e. cache_getitem M (cache w) (key w a) = (None, c1) \<and> func w a = Inl e \<longrightarrow>
        wrapper M w a = Some (Inl (Raised e), w\<lparr>cache := c1, misses := misses w + 1\<rparr>)"
    using assms(1) by (simp add: wrapper_miss_raise)
  have 2: "\<forall>a r w'. wrapper M w a = Some (r, w') \<longrightarrow> pending w' = {}"
    using assms(1) wrapper_pending[of M w] by simp
  have 3: "\<forall>a k e. threads s ! i = Computing a k \<and> func (shared s) a = Inl e \<longrightarrow>
        step M s i =
          Some (s\<lparr>threads := (threads s)[i := Finishing k (Inl (Raised e))],
                  executed := a # executed s\<rparr>)"
    using i by (simp add: step_computing)
  have 4: "\<forall>k v. threads s ! i = Storing k v \<longrightarrow>
        step M s i =
          Some (s\<lparr>shared := store M k v (shared s),
                  threads := (threads s)[i := Finishing k (Inr v)]\<rparr>) \<and>
        pending (store M k v (shared s)) = pending (shared s)"
    using i by (simp add: step_storing store_fields)
  have 5: "\<forall>k r. threads s ! i = Finishing k r \<longrightarrow>
        k \<in> pending (shared s) \<and>
        step M s i =
          Some (s\<lparr>shared := (shared s)\<lparr>pending := pending (shared s) - {k}\<rparr>,
                  threads := map wake ((threads s)[i := Done r])\<rparr>) \<and>
        map wake ((threads s)[i := Done r]) ! i = Done r \<and>
        (\<forall>j<length (threads s). \<not> is_waiting (map wake ((threads s)[i := Done r]) ! j))"
  proof (intro allI impI)
    fix k r
    assume f: "threads s ! i = Finishing k r"
    from consistent_owner[OF c i, of k] f have "k \<in> pending (shared s)" by simp
    moreover note step_finishing[OF c i f, of M]
    moreover from i have "map wake ((threads s)[i := Done r]) ! i = Done r" by simp
    moreover have "\<forall>j<length (threads s). \<not> is_waiting (map wake ((threads s)[i := Done r]) ! j)"
      by (simp add: wake_not_sleeping)
    ultimately show "k \<in> pending (shared s) \<and>
        step M s i =
          Some (s\<lparr>shared := (shared s)\<lparr>pending := pending (shared s) - {k}\<rparr>,
                  threads := map wake ((threads s)[i := Done r])\<rparr>) \<and>
        map wake ((threads s)[i := Done r]) ! i = Done r \<and>
        (\<forall>j<length (threads s). \<not> is_waiting (map wake ((threads s)[i := Done r]) ! j))"
      by (intro conjI)
  qed
  from 1 2 3 4 5 show ?thesis by (intro conjI)
qed

lemma example_raise:
  "run ttl_methods (calls plain [-1, -1]) [Step 0, Step 1, Step 0] =
     Some \<lparr>shared = plain\<lparr>misses := 1, pending := {-1}\<rparr>,
           threads = [Finishing (-1) (Inl (Raised ''negative'')), Waiting (-1)],
           executed = [-1]\<rparr>"
  by (simp add: step_def calls_def enter_def store_def finish_def plain_def py_cache_def
      plain_keys_def square_def Let_def)

theorem failure_and_release_witness:
  "pending plain = {} \<and>
   run ttl_methods (calls plain [-1, -1]) [Step 0, Step 1, Step 0] =
     Some \<lparr>shared = plain\<lparr>misses := 1, pending := {-1}\<rparr>,
           threads = [Finishing (-1) (Inl (Raised ''negative'')), Waiting (-1)],
           executed = [-1]\<rparr> \<and>
   step ttl_methods
     \<lparr>shared = plain\<lparr>misses := 1, pending := {-1}\<rparr>,
      threads = [Finishing (-1) (Inl (Raised ''negative'')), Waiting (-1)],
      executed = [-1]\<rparr> 0 =
     Some \<lparr>shared = plain\<lparr>misses := 1, pending := {}\<rparr>,
           threads = [Done (Inl (Raised ''negative'')), Calling (-1)],
           executed = [-1]\<rparr> \<and>
   wrapper ttl_methods plain (-1) = Some (Inl (Raised ''negative''), plain\<lparr>misses := 1\<rparr>)"
proof -
  let ?s = "\<lparr>shared = plain\<lparr>misses := 1, pending := {-1}\<rparr>,
           threads = [Finishing (-1) (Inl (Raised ''negative'')), Waiting (-1)],
           executed = [-1]\<rparr> :: (int, int, int, string, (int, int) ttl_state) system"
  have p: "pending plain = {}" by (simp add: plain_def py_cache_def)
  have i: "0 < length (threads ?s)" by simp
  note th = failure_and_release[OF p example_raise i]
  note seq = th[THEN conjunct1, rule_format]
  note fin = th[THEN conjunct2, THEN conjunct2, THEN conjunct2, THEN conjunct2, rule_format]
  have "wrapper ttl_methods plain (-1) =
      Some (Inl (Raised ''negative''), plain\<lparr>cache := Dict Map.empty, misses := misses plain + 1\<rparr>)"
    by (rule seq) (simp add: plain_def py_cache_def plain_keys_def square_def)
  then have 1: "wrapper ttl_methods plain (-1) = Some (Inl (Raised ''negative''), plain\<lparr>misses := 1\<rparr>)"
    by (simp add: plain_def py_cache_def)
  from fin[of "-1" "Inl (Raised ''negative'')"]
  have 2: "step ttl_methods ?s 0 =
     Some \<lparr>shared = plain\<lparr>misses := 1, pending := {}\<rparr>,
           threads = [Done (Inl (Raised ''negative'')), Calling (-1)],
           executed = [-1]\<rparr>"
    by simp
  from p example_raise 1 2 show ?thesis by (intro conjI)
qed

subsection \<open>Clearing the cache\<close>

text \<open>
  C5, as the claim states it, fails: \<^verbatim>\<open>cache_clear()\<close> run while a call with key 3 is
  computing leaves the key pending.
\<close>

lemma example_pending:
  "run ttl_methods (calls plain [3]) [Step 0] =
     Some \<lparr>shared = plain\<lparr>misses := 1, pending := {3}\<rparr>,
           threads = [Computing 3 3], executed = []\<rparr>"
  by (simp add: step_def calls_def enter_def plain_def py_cache_def plain_keys_def Let_def)

theorem cache_clear_pending_counterexample:
  "run ttl_methods (calls plain [3]) [Step 0] =
     Some \<lparr>shared = plain\<lparr>misses := 1, pending := {3}\<rparr>,
           threads = [Computing 3 3], executed = []\<rparr> \<and>
   pending (cache_clear ttl_methods (plain\<lparr>misses := 1, pending := {3}\<rparr>)) = {3}"
  using example_pending by (simp add: cache_clear_def)

text \<open>
  C5, amended. \<^verbatim>\<open>cache_clear()\<close> leaves the pending set, \<^verbatim>\<open>func\<close>, the key function and
  the parameters as they are, sets both counters to zero and clears the cache. When
  the cleared cache has size zero and does not hold the key of a call that is not
  pending, \<^verbatim>\<open>cache_info()\<close> reports zero hits, zero misses and size zero, and
  that call is a miss, the first; a dict is such a cache. The threads in flight stay
  consistent with the pending set.
\<close>

theorem cache_clear_resets:
  "pending (cache_clear M w) = pending w \<and> func (cache_clear M w) = func w \<and>
   key (cache_clear M w) = key w \<and> cache_parameters (cache_clear M w) = cache_parameters w \<and>
   hits (cache_clear M w) = 0 \<and> misses (cache_clear M w) = 0 \<and>
   cache (cache_clear M w) = cache_clear_obj M (cache w) \<and>
   (\<forall>a. cache_currsize M (cache_clear_obj M (cache w)) = 0 \<and>
        fst (cache_getitem M (cache_clear_obj M (cache w)) (key w a)) = None \<and>
        key w a \<notin> pending w \<longrightarrow>
        cache_info M (cache_clear M w) =
          CacheInfo 0 0 (cache_maxsize M (cache_clear_obj M (cache w))) 0 \<and>
        (\<exists>r w'. wrapper M (cache_clear M w) a = Some (r, w') \<and> hits w' = 0 \<and> misses w' = 1)) \<and>
   (\<forall>d a. cache w = Dict d \<longrightarrow>
        cache_currsize M (cache_clear_obj M (cache w)) = 0 \<and>
        fst (cache_getitem M (cache_clear_obj M (cache w)) (key w a)) = None) \<and>
   (\<forall>s. consistent s \<longrightarrow> consistent (s\<lparr>shared := cache_clear M (shared s)\<rparr>))"
proof -
  let ?w = "cache_clear M w"
  have 1: "pending ?w = pending w" "func ?w = func w" "key ?w = key w"
    "cache_parameters ?w = cache_parameters w" "hits ?w = 0" "misses ?w = 0"
    "cache ?w = cache_clear_obj M (cache w)"
    by (simp_all add: cache_clear_def cache_parameters_def)
  have 2: "cache_info M ?w = CacheInfo 0 0 (cache_maxsize M (cache_clear_obj M (cache w))) 0 \<and>
        (\<exists>r w'. wrapper M ?w a = Some (r, w') \<and> hits w' = 0 \<and> misses w' = 1)"
    if h: "cache_currsize M (cache_clear_obj M (cache w)) = 0"
      "fst (cache_getitem M (cache_clear_obj M (cache w)) (key w a)) = None"
      "key w a \<notin> pending w" for a
  proof -
    from h(1) 1 have a: "cache_info M ?w =
        CacheInfo 0 0 (cache_maxsize M (cache_clear_obj M (cache w))) 0"
      by (simp add: cache_info_eq)
    from h(3) 1 have "key ?w a \<notin> pending ?w" by simp
    from wrapper_returns[OF this, of M] obtain r w' where r: "wrapper M ?w a = Some (r, w')"
      by blast
    from wrapper_counts[OF r] h(2) 1 have "hits w' = 0 \<and> misses w' = 1" by simp
    with a r show ?thesis by blast
  qed
  have 3: "\<forall>d a. cache w = Dict d \<longrightarrow>
        cache_currsize M (cache_clear_obj M (cache w)) = 0 \<and>
        fst (cache_getitem M (cache_clear_obj M (cache w)) (key w a)) = None"
    by simp
  have 4: "\<forall>s. consistent s \<longrightarrow> consistent (s\<lparr>shared := cache_clear M (shared s)\<rparr>)"
    by (simp add: consistent_def cache_clear_def)
  from 2 have g2: "\<forall>a. cache_currsize M (cache_clear_obj M (cache w)) = 0 \<and>
        fst (cache_getitem M (cache_clear_obj M (cache w)) (key w a)) = None \<and>
        key w a \<notin> pending w \<longrightarrow>
        cache_info M (cache_clear M w) =
          CacheInfo 0 0 (cache_maxsize M (cache_clear_obj M (cache w))) 0 \<and>
        (\<exists>r w'. wrapper M (cache_clear M w) a = Some (r, w') \<and> hits w' = 0 \<and> misses w' = 1)"
    by blast
  from 1 g2 3 4 show ?thesis by (intro conjI)
qed

theorem cache_clear_resets_witness:
  "fst (cache_getitem ttl_methods (cache warm) (key warm 2)) = Some 4 \<and>
   cache_info ttl_methods warm = CacheInfo 3 1 (Some (PyInt 2)) 1 \<and>
   cache_info ttl_methods (cache_clear ttl_methods warm) = CacheInfo 0 0 (Some (PyInt 2)) 0 \<and>
   (\<exists>r w'. wrapper ttl_methods (cache_clear ttl_methods warm) 2 = Some (r, w') \<and>
      hits w' = 0 \<and> misses w' = 1)"
proof -
  note th = cache_clear_resets[of ttl_methods warm]
  note fresh = th[THEN conjunct2, THEN conjunct2, THEN conjunct2, THEN conjunct2,
      THEN conjunct2, THEN conjunct2, THEN conjunct2, THEN conjunct1, rule_format]
  have h: "cache_currsize ttl_methods (cache_clear_obj ttl_methods (cache warm)) = 0 \<and>
      fst (cache_getitem ttl_methods (cache_clear_obj ttl_methods (cache warm)) (key warm 2)) = None \<and>
      key warm 2 \<notin> pending warm"
    by (simp add: warm_def py_cache_def plain_keys_def ttl_methods_def ttl_get_def
        TTLCache_new_def)
  have m: "cache_maxsize ttl_methods (cache_clear_obj ttl_methods (cache warm)) = Some (PyInt 2)"
    by (simp add: warm_def py_cache_def ttl_methods_def TTLCache_new_def)
  have a: "fst (cache_getitem ttl_methods (cache warm) (key warm 2)) = Some 4"
    by (simp add: warm_def py_cache_def plain_keys_def ttl_methods_def ttl_get_def
        TTLCache_new_def expired_def ticking_def)
  have b: "cache_info ttl_methods warm = CacheInfo 3 1 (Some (PyInt 2)) 1"
    by (simp add: warm_def py_cache_def cache_info_def ttl_methods_def TTLCache_new_def)
  from fresh[OF h] m a b show ?thesis by simp
qed

subsection \<open>The unbounded caches\<close>

lemma filter_others_replace:
  "fst e = k \<Longrightarrow>
     filter (\<lambda>x. fst x \<noteq> k) (map (\<lambda>x. if fst x = k then e else x) xs) =
     filter (\<lambda>x. fst x \<noteq> k) xs"
  by (induction xs) auto

lemma replaced_member:
  "k \<in> fst ` set xs \<Longrightarrow> e \<in> set (map (\<lambda>x. if fst x = k then e else x) xs)"
  by (induction xs) auto

lemma ttl_put_unbounded:
  assumes "ttl_capacity c = PyInf"
  shows "\<exists>c'. ttl_put c k v = (True, c') \<and> ttl_capacity c' = PyInf \<and>
     filter (\<lambda>x. fst x \<noteq> k) (ttl_entries c') = filter (\<lambda>x. fst x \<noteq> k) (ttl_entries c) \<and>
     (k, v, ttl_timer c (ttl_reads c) + ttl_duration c) \<in> set (ttl_entries c')"
proof (cases "k \<in> fst ` set (ttl_entries c)")
  case True
  with assms replaced_member[OF True] show ?thesis
    by (simp add: ttl_put_def Let_def filter_others_replace del: set_map)
next
  case False
  with assms show ?thesis by (simp add: ttl_put_def Let_def)
qed

lemma ttl_get_others:
  assumes "ttl_get c k = (r, c')"
  shows "ttl_capacity c' = ttl_capacity c \<and>
     filter (\<lambda>x. fst x \<noteq> k) (ttl_entries c') = filter (\<lambda>x. fst x \<noteq> k) (ttl_entries c) \<and>
     (ttl_entries c' = ttl_entries c \<or>
      (\<exists>e. find (\<lambda>x. fst x = k) (ttl_entries c) = Some e \<and>
           expired (ttl_timer c (ttl_reads c)) e \<and> r = None))"
  using assms by (auto simp: ttl_get_def Let_def split: option.splits if_splits)

text \<open>The state of the cache object of the unbounded TTL wrapper: its capacity is infinite.\<close>

lemma unbounded_getitem:
  assumes "cache_getitem ttl_methods (UnboundTTLCache c) k = (r, x)" "ttl_capacity c = PyInf"
  shows "\<exists>c'. x = UnboundTTLCache c' \<and> ttl_capacity c' = PyInf \<and>
     filter (\<lambda>e. fst e \<noteq> k) (ttl_entries c') = filter (\<lambda>e. fst e \<noteq> k) (ttl_entries c)"
proof -
  obtain c' where g: "ttl_get c k = (r, c')" and x: "x = UnboundTTLCache c'"
    using assms(1) by (auto simp: ttl_methods_def split: prod.splits)
  from ttl_get_others[OF g] assms(2) x show ?thesis by simp
qed

lemma unbounded_setitem:
  assumes "cache_setitem ttl_methods (UnboundTTLCache c) k v = (ok, x)" "ttl_capacity c = PyInf"
  shows "ok \<and> (\<exists>c'. x = UnboundTTLCache c' \<and> ttl_capacity c' = PyInf \<and>
     filter (\<lambda>e. fst e \<noteq> k) (ttl_entries c') = filter (\<lambda>e. fst e \<noteq> k) (ttl_entries c))"
proof -
  from ttl_put_unbounded[OF assms(2), of k v] obtain c' where
    p: "ttl_put c k v = (True, c')" "ttl_capacity c' = PyInf"
    "filter (\<lambda>x. fst x \<noteq> k) (ttl_entries c') = filter (\<lambda>x. fst x \<noteq> k) (ttl_entries c)"
    by blast
  with assms(1) show ?thesis by (auto simp: ttl_methods_def)
qed

lemma unbounded_wrapper:
  assumes w: "wrapper ttl_methods w a = Some (r, w')"
    and c: "cache w = UnboundTTLCache c" "ttl_capacity c = PyInf"
  shows "\<exists>c'. cache w' = UnboundTTLCache c' \<and> ttl_capacity c' = PyInf \<and>
     filter (\<lambda>e. fst e \<noteq> key w a) (ttl_entries c') =
     filter (\<lambda>e. fst e \<noteq> key w a) (ttl_entries c)"
proof -
  from w have p: "key w a \<notin> pending w" by (simp add: wrapper_pending)
  obtain x c1 where g: "cache_getitem ttl_methods (cache w) (key w a) = (x, c1)"
    by (cases "cache_getitem ttl_methods (cache w) (key w a)")
  from unbounded_getitem[OF g[unfolded c(1)] c(2)] obtain d1 where
    d1: "c1 = UnboundTTLCache d1" "ttl_capacity d1 = PyInf"
    "filter (\<lambda>e. fst e \<noteq> key w a) (ttl_entries d1) =
     filter (\<lambda>e. fst e \<noteq> key w a) (ttl_entries c)"
    by blast
  show ?thesis
  proof (cases x)
    case (Some v)
    with wrapper_hit[OF p, of ttl_methods v c1] g w d1 show ?thesis by auto
  next
    case None
    show ?thesis
    proof (cases "func w a")
      case (Inl e)
      with wrapper_miss_raise[OF p, of ttl_methods c1 e] g None w d1 show ?thesis by auto
    next
      case (Inr v)
      obtain ok c2 where st: "cache_setitem ttl_methods c1 (key w a) v = (ok, c2)"
        by (cases "cache_setitem ttl_methods c1 (key w a) v")
      from unbounded_setitem[OF st[unfolded d1(1)] d1(2)] obtain d2 where
        d2: "c2 = UnboundTTLCache d2" "ttl_capacity d2 = PyInf"
        "filter (\<lambda>e. fst e \<noteq> key w a) (ttl_entries d2) =
         filter (\<lambda>e. fst e \<noteq> key w a) (ttl_entries d1)"
        by blast
      from wrapper_miss_value[OF p _ Inr st] g None w have "cache w' = c2" by auto
      with d2 d1(3) show ?thesis by simp
    qed
  qed
qed

text \<open>
  C7. \<^verbatim>\<open>ttl_cache\<close> with \<^verbatim>\<open>maxsize=None\<close> wraps over an \<^verbatim>\<open>_UnboundTTLCache\<close>, a
  \<^verbatim>\<open>TTLCache\<close> built with capacity \<^verbatim>\<open>math.inf\<close> whose \<^verbatim>\<open>maxsize\<close> property is \<^verbatim>\<open>None\<close>. With
  the cache with expiry of the spec as \<^verbatim>\<open>TTLCache\<close>: the capacity of that object is
  infinite and stays so through every call of the wrapper, no call removes or changes
  an entry of a key other than its own, \<^verbatim>\<open>cache_info()\<close> reports \<^verbatim>\<open>maxsize\<close> \<^verbatim>\<open>None\<close>,
  every store succeeds, and a lookup changes the entries only by removing the entry
  of its key when that has expired. The other five constructors, given
  \<^verbatim>\<open>maxsize=None\<close>, wrap over an empty dict, on which a lookup changes nothing and a
  store only adds or replaces its key.
\<close>

theorem unbounded_ttl:
  "ttl_cache TTLCache K ArgNone ttl timer t =
     Decorator (py_cache K (UnboundTTLCache (TTLCache PyInf ttl timer)) None t) \<and>
   cache_maxsize M (UnboundTTLCache c) = None \<and>
   ttl_capacity (TTLCache_new PyInf d tm) = PyInf \<and>
   (\<forall>w a r w'. wrapper ttl_methods w a = Some (r, w') \<and> cache w = UnboundTTLCache u \<and>
        ttl_capacity u = PyInf \<longrightarrow>
        (\<exists>u'. cache w' = UnboundTTLCache u' \<and> ttl_capacity u' = PyInf \<and>
           filter (\<lambda>e. fst e \<noteq> key w a) (ttl_entries u') =
           filter (\<lambda>e. fst e \<noteq> key w a) (ttl_entries u) \<and>
           ci_maxsize (cache_info ttl_methods w') = None)) \<and>
   (\<forall>k v. ttl_capacity u = PyInf \<longrightarrow> fst (ttl_put u k v)) \<and>
   (\<forall>k r u'. ttl_get u k = (r, u') \<longrightarrow>
        ttl_entries u' = ttl_entries u \<or>
        (\<exists>e. find (\<lambda>x. fst x = k) (ttl_entries u) = Some e \<and>
             expired (ttl_timer u (ttl_reads u)) e \<and> r = None \<and>
             ttl_entries u' = filter (\<lambda>x. fst x \<noteq> k) (ttl_entries u))) \<and>
   fifo_cache FIFOCache K ArgNone t = Decorator (py_cache K (Dict Map.empty) None t) \<and>
   lfu_cache LFUCache K ArgNone t = Decorator (py_cache K (Dict Map.empty) None t) \<and>
   lru_cache LRUCache K ArgNone t = Decorator (py_cache K (Dict Map.empty) None t) \<and>
   mru_cache MRUCache K ArgNone t = Decorator (py_cache K (Dict Map.empty) None t) \<and>
   rr_cache RRCache K ArgNone choice t = Decorator (py_cache K (Dict Map.empty) None t) \<and>
   (\<forall>dict k v. cache_getitem M (Dict dict) k = (dict k, Dict dict) \<and>
        cache_setitem M (Dict dict) k v = (True, Dict (dict(k \<mapsto> v))))"
proof -
  have 1: "ttl_cache TTLCache K ArgNone ttl timer t =
     Decorator (py_cache K (UnboundTTLCache (TTLCache PyInf ttl timer)) None t)"
    by (simp add: ttl_cache_def UnboundTTLCache_init_def)
  have 2: "cache_maxsize M (UnboundTTLCache c) = None" by simp
  have 3: "ttl_capacity (TTLCache_new PyInf d tm) = PyInf" by (simp add: TTLCache_new_def)
  have 4: "\<forall>w a r w'. wrapper ttl_methods w a = Some (r, w') \<and> cache w = UnboundTTLCache u \<and>
        ttl_capacity u = PyInf \<longrightarrow>
        (\<exists>u'. cache w' = UnboundTTLCache u' \<and> ttl_capacity u' = PyInf \<and>
           filter (\<lambda>e. fst e \<noteq> key w a) (ttl_entries u') =
           filter (\<lambda>e. fst e \<noteq> key w a) (ttl_entries u) \<and>
           ci_maxsize (cache_info ttl_methods w') = None)"
  proof (intro allI impI)
    fix w a r w'
    assume h: "wrapper ttl_methods w a = Some (r, w') \<and> cache w = UnboundTTLCache u \<and>
        ttl_capacity u = PyInf"
    then have "\<exists>u'. cache w' = UnboundTTLCache u' \<and> ttl_capacity u' = PyInf \<and>
       filter (\<lambda>e. fst e \<noteq> key w a) (ttl_entries u') =
       filter (\<lambda>e. fst e \<noteq> key w a) (ttl_entries u)"
      using unbounded_wrapper[of w a r w' u] by simp
    then obtain u' where u': "cache w' = UnboundTTLCache u'" "ttl_capacity u' = PyInf"
      "filter (\<lambda>e. fst e \<noteq> key w a) (ttl_entries u') =
       filter (\<lambda>e. fst e \<noteq> key w a) (ttl_entries u)"
      by blast
    then have "ci_maxsize (cache_info ttl_methods w') = None" by (simp add: cache_info_eq)
    with u' show "\<exists>u'. cache w' = UnboundTTLCache u' \<and> ttl_capacity u' = PyInf \<and>
           filter (\<lambda>e. fst e \<noteq> key w a) (ttl_entries u') =
           filter (\<lambda>e. fst e \<noteq> key w a) (ttl_entries u) \<and>
           ci_maxsize (cache_info ttl_methods w') = None"
      by simp
  qed
  have 5: "\<forall>k v. ttl_capacity u = PyInf \<longrightarrow> fst (ttl_put u k v)"
    using ttl_put_unbounded[of u] by (metis fst_conv)
  have 6: "\<forall>k r u'. ttl_get u k = (r, u') \<longrightarrow>
        ttl_entries u' = ttl_entries u \<or>
        (\<exists>e. find (\<lambda>x. fst x = k) (ttl_entries u) = Some e \<and>
             expired (ttl_timer u (ttl_reads u)) e \<and> r = None \<and>
             ttl_entries u' = filter (\<lambda>x. fst x \<noteq> k) (ttl_entries u))"
    by (auto simp: ttl_get_def Let_def split: option.splits if_splits)
  have 7: "fifo_cache FIFOCache K ArgNone t = Decorator (py_cache K (Dict Map.empty) None t)"
    "lfu_cache LFUCache K ArgNone t = Decorator (py_cache K (Dict Map.empty) None t)"
    "lru_cache LRUCache K ArgNone t = Decorator (py_cache K (Dict Map.empty) None t)"
    "mru_cache MRUCache K ArgNone t = Decorator (py_cache K (Dict Map.empty) None t)"
    "rr_cache RRCache K ArgNone choice t = Decorator (py_cache K (Dict Map.empty) None t)"
    by (simp_all add: fifo_cache_def lfu_cache_def lru_cache_def mru_cache_def rr_cache_def)
  have 8: "\<forall>dict k v. cache_getitem M (Dict dict) k = (dict k, Dict dict) \<and>
        cache_setitem M (Dict dict) k v = (True, Dict (dict(k \<mapsto> v)))"
    by simp
  from 1 2 3 4 5 6 7 8 show ?thesis by (intro conjI)
qed

lemma example_unbound:
  "wrapper ttl_methods unbound 2 =
     Some (Inr 4, unbound\<lparr>cache := UnboundTTLCache
        ((TTLCache_new PyInf 5 ticking)\<lparr>ttl_reads := 2, ttl_entries := [(2, 4, 6)]\<rparr>),
        misses := 1\<rparr>)"
  by (simp add: wrapper_def enter_def store_def finish_def unbound_def py_cache_def
      plain_keys_def square_def ttl_methods_def ttl_get_def ttl_put_def TTLCache_new_def
      ticking_def Let_def)

theorem unbounded_ttl_witness:
  "ttl_cache TTLCache_new plain_keys ArgNone 5 ticking False =
     Decorator (py_cache plain_keys (UnboundTTLCache (TTLCache_new PyInf 5 ticking)) None False) \<and>
   wrapper ttl_methods unbound 2 =
     Some (Inr 4, unbound\<lparr>cache := UnboundTTLCache
        ((TTLCache_new PyInf 5 ticking)\<lparr>ttl_reads := 2, ttl_entries := [(2, 4, 6)]\<rparr>),
        misses := 1\<rparr>) \<and>
   ci_maxsize (cache_info ttl_methods (unbound\<lparr>cache := UnboundTTLCache
        ((TTLCache_new PyInf 5 ticking)\<lparr>ttl_reads := 2, ttl_entries := [(2, 4, 6)]\<rparr>),
        misses := 1\<rparr>)) = None"
proof -
  note th = unbounded_ttl[where u = "TTLCache_new PyInf 5 ticking :: (int, int) ttl_state"
      and TTLCache = TTLCache_new and K = plain_keys and ttl = 5 and timer = ticking and t = False]
  note ctor = th[THEN conjunct1]
  note calls = th[THEN conjunct2, THEN conjunct2, THEN conjunct2, THEN conjunct1, rule_format]
  have "wrapper ttl_methods unbound 2 =
     Some (Inr 4, unbound\<lparr>cache := UnboundTTLCache
        ((TTLCache_new PyInf 5 ticking)\<lparr>ttl_reads := 2, ttl_entries := [(2, 4, 6)]\<rparr>),
        misses := 1\<rparr>) \<and>
    cache unbound = UnboundTTLCache (TTLCache_new PyInf 5 ticking) \<and>
    ttl_capacity (TTLCache_new PyInf 5 ticking :: (int, int) ttl_state) = PyInf"
    using example_unbound by (simp add: unbound_def py_cache_def TTLCache_new_def)
  from calls[OF this] ctor example_unbound show ?thesis by auto
qed

subsection \<open>Typed keys\<close>

lemma key_selected:
  "key (py_cache K c m t f) = (if t then typedkey K else hashkey K) \<and>
   typed (py_cache K c m t f) = t"
  by (simp add: py_cache_def)

lemma constructors_key:
  "key (wrapper_of (fifo_cache FIFOCache K m t) f) = (if t then typedkey K else hashkey K)"
  "key (wrapper_of (lfu_cache LFUCache K m t) f) = (if t then typedkey K else hashkey K)"
  "key (wrapper_of (lru_cache LRUCache K m t) f) = (if t then typedkey K else hashkey K)"
  "key (wrapper_of (mru_cache MRUCache K m t) f) = (if t then typedkey K else hashkey K)"
  "key (wrapper_of (rr_cache RRCache K m choice t) f) = (if t then typedkey K else hashkey K)"
  "key (wrapper_of (ttl_cache TTLCache K m ttl timer t) f) =
     (if t then typedkey K else hashkey K)"
  by (cases m; simp add: wrapper_of_def fifo_cache_def lfu_cache_def lru_cache_def
      mru_cache_def rr_cache_def ttl_cache_def py_cache_def)+

lemma hashkey_equal:
  "list_all2 py_eq xs ys \<Longrightarrow> (\<forall>n. rel_option py_eq (kw n) (kw' n)) \<Longrightarrow>
     py_hashkey (xs, kw) = py_hashkey (ys, kw')"
proof -
  assume a: "list_all2 py_eq xs ys" and b: "\<forall>n. rel_option py_eq (kw n) (kw' n)"
  from a have "map value_of xs = map value_of ys"
    by (induction rule: list_all2_induct) (simp_all add: py_eq_def)
  moreover have "map_option value_of (kw n) = map_option value_of (kw' n)" for n
    using b[rule_format, of n] by (cases "kw n"; cases "kw' n") (simp_all add: py_eq_def)
  then have "map_option value_of \<circ> kw = map_option value_of \<circ> kw'" by (simp add: fun_eq_iff)
  ultimately show ?thesis by (simp add: py_hashkey_def)
qed

lemma typedkey_differs:
  "map type_of xs \<noteq> map type_of ys \<Longrightarrow> py_typedkey (xs, kw) \<noteq> py_typedkey (ys, kw')"
  by (simp add: py_typedkey_def)

lemma two_calls:
  assumes u: "undisturbed M w {} [a1, a2]" and z: "hits w = 0" "misses w = 0"
  shows "\<exists>w'. run_ops M w [Call a1, Call a2] = Some w' \<and>
     misses w' = (if key w a1 = key w a2 then 1 else 2) \<and>
     hits w' = (if key w a1 = key w a2 then 1 else 0)"
proof -
  from undisturbed_counts[OF u] z obtain w' where
    r: "run_ops M w (map Call [a1, a2]) = Some w'"
    and hm: "hits w' + misses w' = int (length [a1, a2])"
    and m: "misses w' = int (card (key w ` set [a1, a2] - {}))"
    by auto
  have "card (key w ` set [a1, a2] - {}) = (if key w a1 = key w a2 then 1 else 2)" by simp
  with r hm m show ?thesis by auto
qed

text \<open>
  C8. The wrapper every constructor ends in derives its keys with \<^verbatim>\<open>keys.typedkey\<close>
  when \<^verbatim>\<open>typed\<close> is true and with \<^verbatim>\<open>keys.hashkey\<close> otherwise. With the key functions
  of the spec: calls equal in all positional and keyword values have the same
  untyped key, and calls whose positional arguments differ in a runtime type have
  different typed keys; the integer 1 and the float 1.0 are equal. So, on a fresh
  wrapper whose cache finds what was stored and nothing else, the calls \<^verbatim>\<open>f(1)\<close> and
  \<^verbatim>\<open>f(1.0)\<close> are two misses when \<^verbatim>\<open>typed\<close> is true, and a miss and a hit when it is
  false.
\<close>

theorem typed_keys:
  "key (py_cache K c m t f) = (if t then typedkey K else hashkey K) \<and>
   key (wrapper_of (fifo_cache FIFOCache K a t) f) = (if t then typedkey K else hashkey K) \<and>
   key (wrapper_of (lfu_cache LFUCache K a t) f) = (if t then typedkey K else hashkey K) \<and>
   key (wrapper_of (lru_cache LRUCache K a t) f) = (if t then typedkey K else hashkey K) \<and>
   key (wrapper_of (mru_cache MRUCache K a t) f) = (if t then typedkey K else hashkey K) \<and>
   key (wrapper_of (rr_cache RRCache K a choice t) f) = (if t then typedkey K else hashkey K) \<and>
   key (wrapper_of (ttl_cache TTLCache K a ttl timer t) f) =
     (if t then typedkey K else hashkey K) \<and>
   (\<forall>xs ys kw kw'. list_all2 py_eq xs ys \<and> (\<forall>n. rel_option py_eq (kw n) (kw' n)) \<longrightarrow>
      hashkey py_keys (xs, kw) = hashkey py_keys (ys, kw')) \<and>
   (\<forall>xs ys kw kw'. map type_of xs \<noteq> map type_of ys \<longrightarrow>
      typedkey py_keys (xs, kw) \<noteq> typedkey py_keys (ys, kw')) \<and>
   py_eq (PyInteger 1) (PyFloat 1) \<and>
   (undisturbed M (py_cache py_keys c m True g) {} [call_int, call_float] \<longrightarrow>
      (\<exists>w'. run_ops M (py_cache py_keys c m True g) [Call call_int, Call call_float] = Some w' \<and>
         misses w' = 2 \<and> hits w' = 0)) \<and>
   (undisturbed M (py_cache py_keys c m False g) {} [call_int, call_float] \<longrightarrow>
      (\<exists>w'. run_ops M (py_cache py_keys c m False g) [Call call_int, Call call_float] = Some w' \<and>
         misses w' = 1 \<and> hits w' = 1))"
proof -
  have 1: "key (py_cache K c m t f) = (if t then typedkey K else hashkey K)"
    by (simp add: key_selected)
  have 2: "\<forall>xs ys kw kw'. list_all2 py_eq xs ys \<and> (\<forall>n. rel_option py_eq (kw n) (kw' n)) \<longrightarrow>
      hashkey py_keys (xs, kw) = hashkey py_keys (ys, kw')"
    by (simp add: py_keys_def hashkey_equal)
  have 3: "\<forall>xs ys kw kw'. map type_of xs \<noteq> map type_of ys \<longrightarrow>
      typedkey py_keys (xs, kw) \<noteq> typedkey py_keys (ys, kw')"
    by (simp add: py_keys_def typedkey_differs)
  have 4: "py_eq (PyInteger 1) (PyFloat 1)" by (simp add: py_eq_def)
  have kt: "key (py_cache py_keys c m True g) call_int \<noteq>
      key (py_cache py_keys c m True g) call_float"
    by (simp add: py_cache_def py_keys_def py_typedkey_def call_int_def call_float_def)
  have kf: "key (py_cache py_keys c m False g) call_int =
      key (py_cache py_keys c m False g) call_float"
    by (simp add: py_cache_def py_keys_def py_hashkey_def call_int_def call_float_def)
  have z: "hits (py_cache py_keys c m b g) = 0" "misses (py_cache py_keys c m b g) = 0" for b
    by (simp_all add: py_cache_def)
  have 5: "undisturbed M (py_cache py_keys c m True g) {} [call_int, call_float] \<longrightarrow>
      (\<exists>w'. run_ops M (py_cache py_keys c m True g) [Call call_int, Call call_float] = Some w' \<and>
         misses w' = 2 \<and> hits w' = 0)"
    using two_calls[OF _ z, of M True call_int call_float] kt by auto
  have 6: "undisturbed M (py_cache py_keys c m False g) {} [call_int, call_float] \<longrightarrow>
      (\<exists>w'. run_ops M (py_cache py_keys c m False g) [Call call_int, Call call_float] = Some w' \<and>
         misses w' = 1 \<and> hits w' = 1)"
    using two_calls[OF _ z, of M False call_int call_float] kf by auto
  from 1 constructors_key(1)[of FIFOCache K a t f] constructors_key(2)[of LFUCache K a t f]
    constructors_key(3)[of LRUCache K a t f] constructors_key(4)[of MRUCache K a t f]
    constructors_key(5)[of RRCache K a choice t f]
    constructors_key(6)[of TTLCache K a ttl timer t f] 2 3 4 5 6
  show ?thesis by (intro conjI)
qed

lemma example_typed:
  "undisturbed ttl_methods (py_cache py_keys (Dict Map.empty) None True arity) {}
     [call_int, call_float]"
  by (simp add: wrapper_def enter_def store_def finish_def py_cache_def py_keys_def
      py_typedkey_def arity_def call_int_def call_float_def)

lemma example_untyped:
  "undisturbed ttl_methods (py_cache py_keys (Dict Map.empty) None False arity) {}
     [call_int, call_float]"
  by (simp add: wrapper_def enter_def store_def finish_def py_cache_def py_keys_def
      py_hashkey_def arity_def call_int_def call_float_def)

theorem typed_keys_witness:
  "undisturbed ttl_methods (py_cache py_keys (Dict Map.empty) None True arity) {}
     [call_int, call_float] \<and>
   undisturbed ttl_methods (py_cache py_keys (Dict Map.empty) None False arity) {}
     [call_int, call_float] \<and>
   (\<exists>w'. run_ops ttl_methods (py_cache py_keys (Dict Map.empty) None True arity)
       [Call call_int, Call call_float] = Some w' \<and> misses w' = 2 \<and> hits w' = 0) \<and>
   (\<exists>w'. run_ops ttl_methods (py_cache py_keys (Dict Map.empty) None False arity)
       [Call call_int, Call call_float] = Some w' \<and> misses w' = 1 \<and> hits w' = 1)"
proof -
  note th = typed_keys[where M = ttl_methods and c = "Dict Map.empty" and m = None and g = arity]
  note rest = th[THEN conjunct2, THEN conjunct2, THEN conjunct2, THEN conjunct2,
      THEN conjunct2, THEN conjunct2, THEN conjunct2, THEN conjunct2, THEN conjunct2,
      THEN conjunct2]
  note ty = rest[THEN conjunct1, rule_format]
  note un = rest[THEN conjunct2, rule_format]
  from ty[OF example_typed] un[OF example_untyped] example_typed example_untyped
  show ?thesis by (intro conjI)
qed

end
